theory Spec2Isabelle
  imports Main "HOL-Library.Word"
begin

unbundle bit_operations_syntax

section \<open>Data model of RvaIndexLookup\<close>

text \<open>
  The embedding follows \<^verbatim>\<open>RvaIndexLookup.h\<close> and \<^verbatim>\<open>RvaIndexLookup.cpp\<close>.
  Member names lose their trailing underscore (\<^verbatim>\<open>index1Entries_\<close> is
  \<open>index1Entries\<close>), which Isabelle does not admit in a constant name.
  Fixed-width integers are words; \<^verbatim>\<open>size_t\<close> positions and counts are naturals,
  the sentinel \<^verbatim>\<open>static_cast<size_t>(-1)\<close> being \<open>2 ^ 64 - 1\<close>.
\<close>

type_synonym byte = "8 word"
type_synonym uint16 = "16 word"
type_synonym uint32 = "32 word"
type_synonym uint64 = "64 word"

text \<open>The files the process can open: a path with no entry cannot be opened.\<close>

type_synonym filesystem = "string \<Rightarrow> byte list option"

record Index1Entry =
  startRva :: uint64
  index2Offset :: uint64
  index2Size :: uint32

record DecodedBlock =
  rvas :: "uint64 list"
  lines :: "uint32 list"

text \<open>
  A \<^verbatim>\<open>std::ifstream\<close>: whether it is open, the bytes of the file it was opened on
  (taken once, at opening: the file is not rewritten while the handle is open), the get
  position and the failure state that \<^verbatim>\<open>operator!\<close> and \<^verbatim>\<open>fail()\<close> read.
\<close>

record ifstream =
  is_open :: bool
  filedata :: "byte list"
  gpos :: nat
  failed :: bool

record RvaIndexLookup =
  index1Entries :: "Index1Entry list"
  index2Path :: string
  totalDumpLines :: uint32
  index2Stream :: ifstream
  index2OpenAttempted :: bool
  lastError :: string
  cachedBlockIndex :: nat
  cachedBlock :: DecodedBlock

text \<open>An output pointer argument: only whether it is null matters.\<close>

datatype out_ptr = Null | NonNull

definition kIndex1Magic :: "byte list" where
  "kIndex1Magic = [0x49, 0x44, 0x58, 0x31]"

definition kIndex2Magic :: "byte list" where
  "kIndex2Magic = [0x49, 0x44, 0x58, 0x32]"

definition kVersion1 :: uint16 where "kVersion1 = 1"
definition kVersion2 :: uint16 where "kVersion2 = 2"
definition kVersion3 :: uint16 where "kVersion3 = 3"

definition size_t_max :: nat where
  "size_t_max = 18446744073709551615"

definition empty_block :: DecodedBlock where
  "empty_block = \<lparr>rvas = [], lines = []\<rparr>"

section \<open>Little-endian readers\<close>

text \<open>A pointer into a buffer is the list of bytes from that position on.\<close>

definition ReadLe16 :: "byte list \<Rightarrow> uint16" where
  "ReadLe16 p = ucast (p ! 0) OR push_bit 8 (ucast (p ! 1))"

definition ReadLe32 :: "byte list \<Rightarrow> uint32" where
  "ReadLe32 p = ucast (p ! 0) OR push_bit 8 (ucast (p ! 1))
     OR push_bit 16 (ucast (p ! 2)) OR push_bit 24 (ucast (p ! 3))"

definition ReadLe64 :: "byte list \<Rightarrow> uint64" where
  "ReadLe64 p = ucast (ReadLe32 p) OR push_bit 32 (ucast (ReadLe32 (drop 4 p)))"

section \<open>Streams\<close>

definition fresh_stream :: ifstream where
  "fresh_stream = \<lparr>is_open = False, filedata = [], gpos = 0, failed = False\<rparr>"

text \<open>
  \<^verbatim>\<open>open\<close> fails on a stream that is already open and on a path that cannot be
  opened; on success it clears the state and starts at position 0.
\<close>

definition stream_open :: "filesystem \<Rightarrow> string \<Rightarrow> ifstream \<Rightarrow> ifstream" where
  "stream_open fs path s =
     (if is_open s then s\<lparr>failed := True\<rparr>
      else case fs path of
             None \<Rightarrow> s\<lparr>failed := True\<rparr>
           | Some bs \<Rightarrow> \<lparr>is_open = True, filedata = bs, gpos = 0, failed = False\<rparr>)"

definition stream_close :: "ifstream \<Rightarrow> ifstream" where
  "stream_close s = s\<lparr>is_open := False, filedata := [], gpos := 0\<rparr>"

definition stream_clear :: "ifstream \<Rightarrow> ifstream" where
  "stream_clear s = s\<lparr>failed := False\<rparr>"

text \<open>
  \<^verbatim>\<open>seekg(off, std::ios::beg)\<close> with a signed offset: nothing happens on a failed
  stream, a closed stream or a negative offset fails, a position past the end is accepted
  (the read that follows is short).
\<close>

definition seekg :: "ifstream \<Rightarrow> int \<Rightarrow> ifstream" where
  "seekg s off =
     (if failed s then s
      else if \<not> is_open s \<or> off < 0 then s\<lparr>failed := True\<rparr>
      else s\<lparr>gpos := nat off\<rparr>)"

text \<open>
  \<^verbatim>\<open>ReadFully\<close>: the bytes read when the stream did not fail and delivered all
  \<open>sz\<close> bytes, nothing otherwise, and the stream after the read.
\<close>

definition ReadFully :: "ifstream \<Rightarrow> nat \<Rightarrow> byte list option \<times> ifstream" where
  "ReadFully stream sz =
     (if failed stream \<or> \<not> is_open stream then (None, stream\<lparr>failed := True\<rparr>)
      else if gpos stream + sz \<le> length (filedata stream)
      then (Some (take sz (drop (gpos stream) (filedata stream))),
            stream\<lparr>gpos := gpos stream + sz\<rparr>)
      else (None, stream\<lparr>gpos := max (gpos stream) (length (filedata stream)),
                          failed := True\<rparr>))"

section \<open>Standard algorithms\<close>

text \<open>
  \<^verbatim>\<open>std::is_sorted\<close> with a comparator: no element compares less than its
  predecessor.
\<close>

fun is_sorted :: "('a \<Rightarrow> 'a \<Rightarrow> bool) \<Rightarrow> 'a list \<Rightarrow> bool" where
  "is_sorted cmp [] = True"
| "is_sorted cmp [x] = True"
| "is_sorted cmp (x # y # zs) = (\<not> cmp y x \<and> is_sorted cmp (y # zs))"

text \<open>
  \<^verbatim>\<open>std::upper_bound\<close> with a comparator \<open>cmp value element\<close>: the binary search
  over the positions \<open>first ..< first + len\<close>, returning a position.
\<close>

function upper_bound_loop ::
  "('v \<Rightarrow> 'a \<Rightarrow> bool) \<Rightarrow> 'a list \<Rightarrow> 'v \<Rightarrow> nat \<Rightarrow> nat \<Rightarrow> nat" where
  "upper_bound_loop cmp xs val first len =
     (if 0 < len then
        (let half = len div 2; middle = first + half in
         if cmp val (xs ! middle) then upper_bound_loop cmp xs val first half
         else upper_bound_loop cmp xs val (middle + 1) (len - half - 1))
      else first)"
  by pat_completeness auto
termination
  by (relation "measure (\<lambda>(cmp, xs, val, first, len). len)") auto

declare upper_bound_loop.simps [simp del]

definition upper_bound :: "('v \<Rightarrow> 'a \<Rightarrow> bool) \<Rightarrow> 'a list \<Rightarrow> 'v \<Rightarrow> nat" where
  "upper_bound cmp xs val = upper_bound_loop cmp xs val 0 (length xs)"

section \<open>Opening the second file\<close>

definition EnsureIndex2Open ::
  "filesystem \<Rightarrow> RvaIndexLookup \<Rightarrow> (string + unit) \<times> RvaIndexLookup" where
  "EnsureIndex2Open fs this =
     (if is_open (index2Stream this) then (Inr (), this)
      else if index2OpenAttempted this then (Inl (lastError this), this)
      else
        (let this1 = this\<lparr>index2OpenAttempted := True,
                          index2Stream := stream_open fs (index2Path this) (index2Stream this)\<rparr>
         in if failed (index2Stream this1)
            then (let this2 = this1\<lparr>lastError := ''Failed to open index2 file: '' @ index2Path this1\<rparr>
                  in (Inl (lastError this2), this2))
            else (Inr (), this1)))"

section \<open>Decoding a block\<close>

text \<open>
  The record loop of \<^verbatim>\<open>LoadDecodedBlock\<close>, with its counter \<open>i\<close>, its offset
  \<open>off\<close>, the running address and the block built so far.
\<close>

function decode_records ::
  "byte list \<Rightarrow> uint64 \<Rightarrow> uint32 \<Rightarrow> uint32 \<Rightarrow> nat \<Rightarrow> nat \<Rightarrow> uint64 \<Rightarrow> DecodedBlock
     \<Rightarrow> DecodedBlock" where
  "decode_records buf startRva0 startLine recordCount i off currentRva decoded =
     (if i < unat recordCount then
        (let addrDelta = ReadLe32 (drop off buf);
             absoluteLine = ReadLe32 (drop (off + 4) buf);
             currentRva1 = (if i = 0 then startRva0 + ucast addrDelta
                            else currentRva + ucast addrDelta);
             line = (if i = 0 then (if absoluteLine = 0 then startLine else absoluteLine)
                     else absoluteLine);
             decoded1 = decoded\<lparr>lines := lines decoded @ [line]\<rparr>;
             decoded2 = decoded1\<lparr>rvas := rvas decoded1 @ [currentRva1]\<rparr>
         in decode_records buf startRva0 startLine recordCount (i + 1) (off + 8)
              currentRva1 decoded2)
      else decoded)"
  by pat_completeness auto
termination
  by (relation "measure (\<lambda>(buf, s, l, recordCount, i, off, c, d). unat recordCount - i)") auto

declare decode_records.simps [simp del]

text \<open>
  What \<^verbatim>\<open>LoadDecodedBlock\<close> does with the bytes of a block once they are read:
  header fields, the size check, the record loop and the order check.
\<close>

definition decode_buffer :: "Index1Entry \<Rightarrow> byte list \<Rightarrow> string + DecodedBlock" where
  "decode_buffer e buf =
     (let startRva0 = ReadLe64 buf;
          currentRva = startRva0;
          startLine = ReadLe32 (drop 8 buf);
          recordCount = ReadLe32 (drop 12 buf);
          expected = (16 :: uint64) + ucast recordCount * 8
      in if expected \<noteq> ucast (index2Size e)
         then Inl ''Corrupt block: record count does not match block size''
         else
           (let decoded = decode_records buf startRva0 startLine recordCount 0 16 currentRva
                            empty_block
            in if rvas decoded \<noteq> [] \<and> \<not> is_sorted (<) (rvas decoded)
               then Inl ''Corrupt block: RVAs are not sorted''
               else Inr decoded))"

definition LoadDecodedBlock ::
  "filesystem \<Rightarrow> nat \<Rightarrow> out_ptr \<Rightarrow> RvaIndexLookup
     \<Rightarrow> (string + DecodedBlock) \<times> RvaIndexLookup" where
  "LoadDecodedBlock fs blockIndex outBlock this =
     (if outBlock = Null then (Inl ''Internal error: outBlock is null'', this)
      else if blockIndex \<ge> length (index1Entries this)
      then (Inl ''Block index out of range'', this)
      else
        (case EnsureIndex2Open fs this of
           (Inl err, this1) \<Rightarrow> (Inl err, this1)
         | (Inr _, this1) \<Rightarrow>
             if cachedBlockIndex this1 = blockIndex then (Inr (cachedBlock this1), this1)
             else
               (let e = index1Entries this1 ! blockIndex in
                if index2Size e < 16
                then (Inl ''Corrupt block: size smaller than block header'', this1)
                else
                  (case ReadFully (seekg (stream_clear (index2Stream this1))
                                     (sint (index2Offset e)))
                          (unat (index2Size e)) of
                     (None, s) \<Rightarrow>
                       (Inl ''Failed reading index2 block'', this1\<lparr>index2Stream := s\<rparr>)
                   | (Some buf, s) \<Rightarrow>
                       (let this2 = this1\<lparr>index2Stream := s\<rparr> in
                        case decode_buffer e buf of
                          Inl err \<Rightarrow> (Inl err, this2)
                        | Inr decoded \<Rightarrow>
                            (Inr decoded,
                             this2\<lparr>cachedBlockIndex := blockIndex,
                                   cachedBlock := decoded\<rparr>))))))"

section \<open>Lookup\<close>

text \<open>
  The lambda \<^verbatim>\<open>floorInBlock\<close>: \<open>Some v\<close> when it stores \<open>v\<close> through its output
  pointer and returns true.
\<close>

definition floorInBlock :: "uint64 \<Rightarrow> DecodedBlock \<Rightarrow> uint32 option" where
  "floorInBlock queryRva b =
     (if rvas b = [] then None
      else
        (let bit = upper_bound (<) (rvas b) queryRva in
         if bit = 0 then None
         else (let i = bit - 1 in Some (lines b ! i))))"

text \<open>
  \<open>Some v\<close> when the function returns true with \<open>v\<close> stored through \<open>outLine\<close>,
  \<open>None\<close> when it returns false (nothing is stored then).
\<close>

definition FindClosestLowerOrEqualLine ::
  "filesystem \<Rightarrow> uint64 \<Rightarrow> out_ptr \<Rightarrow> RvaIndexLookup \<Rightarrow> uint32 option \<times> RvaIndexLookup" where
  "FindClosestLowerOrEqualLine fs queryRva outLine this =
     (if outLine = Null \<or> index1Entries this = [] then (None, this)
      else if queryRva < startRva (hd (index1Entries this)) then (None, this)
      else
        (let it = upper_bound (\<lambda>val entry. val < startRva entry) (index1Entries this) queryRva
         in if it = 0 then (None, this)
            else
              (let blockIndex = it - 1 in
               case LoadDecodedBlock fs blockIndex NonNull this of
                 (Inl err, this1) \<Rightarrow> (None, this1)
               | (Inr block, this1) \<Rightarrow>
                   (case floorInBlock queryRva block of
                      Some v \<Rightarrow> (Some v, this1)
                    | None \<Rightarrow>
                        if blockIndex = 0 then (None, this1)
                        else
                          (case LoadDecodedBlock fs (blockIndex - 1) NonNull this1 of
                             (Inl err, this2) \<Rightarrow> (None, this2)
                           | (Inr prevBlock, this2) \<Rightarrow>
                               if lines prevBlock = [] then (None, this2)
                               else (Some (last (lines prevBlock)), this2))))))"

definition GetTotalDumpLines :: "RvaIndexLookup \<Rightarrow> uint32" where
  "GetTotalDumpLines this = totalDumpLines this"

section \<open>Loading\<close>

text \<open>The loop of \<^verbatim>\<open>Load\<close> reading the 24-byte routing entries.\<close>

function read_entries ::
  "ifstream \<Rightarrow> uint32 \<Rightarrow> nat \<Rightarrow> Index1Entry list \<Rightarrow> Index1Entry list option \<times> ifstream" where
  "read_entries f entryCount i entries =
     (if i < unat entryCount then
        (case ReadFully f 24 of
           (None, f1) \<Rightarrow> (None, f1)
         | (Some entryBuf, f1) \<Rightarrow>
             (let entry = \<lparr>startRva = ReadLe64 entryBuf,
                           index2Offset = ReadLe64 (drop 8 entryBuf),
                           index2Size = ReadLe32 (drop 16 entryBuf)\<rparr>
              in read_entries f1 entryCount (i + 1) (entries @ [entry])))
      else (Some entries, f))"
  by pat_completeness auto
termination
  by (relation "measure (\<lambda>(f, entryCount, i, entries). unat entryCount - i)") auto

declare read_entries.simps [simp del]

definition clear_table :: "RvaIndexLookup \<Rightarrow> RvaIndexLookup" where
  "clear_table this = this\<lparr>index1Entries := [], index2Path := []\<rparr>"

text \<open>The end of \<^verbatim>\<open>Load\<close>: the block count against the routing table.\<close>

definition Load_check_count :: "uint32 \<Rightarrow> RvaIndexLookup \<Rightarrow> (string + unit) \<times> RvaIndexLookup" where
  "Load_check_count blockCount this =
     (if unat blockCount \<noteq> length (index1Entries this)
      then (Inl ''index1 entry count does not match index2 block count'', clear_table this)
      else (Inr (), this))"

text \<open>The part of \<^verbatim>\<open>Load\<close> that follows the checks of the routing table.\<close>

definition Load_index2 ::
  "filesystem \<Rightarrow> string \<Rightarrow> RvaIndexLookup \<Rightarrow> (string + unit) \<times> RvaIndexLookup" where
  "Load_index2 fs index2Path0 this0 =
     (case EnsureIndex2Open fs (this0\<lparr>index2Path := index2Path0\<rparr>) of
        (Inl err, this1) \<Rightarrow> (Inl err, clear_table this1)
      | (Inr _, this1) \<Rightarrow>
          (case ReadFully (seekg (index2Stream this1) 0) 12 of
             (None, s) \<Rightarrow>
               (Inl ''Failed to read index2 header'', clear_table (this1\<lparr>index2Stream := s\<rparr>))
           | (Some idx2HeaderBase, s) \<Rightarrow>
               (let this2 = this1\<lparr>index2Stream := s\<rparr> in
                if take 4 idx2HeaderBase \<noteq> kIndex2Magic
                then (Inl ''index2 magic mismatch (expected IDX2)'', clear_table this2)
                else
                  (let idx2Version = ReadLe16 (drop 4 idx2HeaderBase);
                       blockCount = ReadLe32 (drop 8 idx2HeaderBase)
                   in if idx2Version \<noteq> kVersion1 \<and> idx2Version \<noteq> kVersion2
                         \<and> idx2Version \<noteq> kVersion3
                      then (Inl ''Unsupported index2 version'', clear_table this2)
                      else if idx2Version \<ge> kVersion2
                      then
                        (case ReadFully (index2Stream this2) 4 of
                           (None, s1) \<Rightarrow>
                             (Inl ''Failed to read index2 total_dump_lines'',
                              clear_table (this2\<lparr>index2Stream := s1\<rparr>))
                         | (Some totalLinesBuf, s1) \<Rightarrow>
                             Load_check_count blockCount
                               (this2\<lparr>index2Stream := s1,
                                      totalDumpLines := ReadLe32 totalLinesBuf\<rparr>))
                      else Load_check_count blockCount this2))))"

text \<open>The assignments at the start of \<^verbatim>\<open>Load\<close>.\<close>

definition Load_reset :: "RvaIndexLookup \<Rightarrow> RvaIndexLookup" where
  "Load_reset this =
     this\<lparr>index1Entries := [], index2Path := [],
          index2Stream := (if is_open (index2Stream this)
                           then stream_close (index2Stream this)
                           else index2Stream this),
          index2OpenAttempted := False, lastError := [],
          totalDumpLines := 0, cachedBlockIndex := size_t_max,
          cachedBlock := empty_block\<rparr>"

definition Load ::
  "filesystem \<Rightarrow> string \<Rightarrow> string \<Rightarrow> RvaIndexLookup \<Rightarrow> (string + unit) \<times> RvaIndexLookup" where
  "Load fs index1Path index2Path0 this =
     (let this0 = Load_reset this;
          f = stream_open fs index1Path fresh_stream
      in if failed f then (Inl (''Failed to open index1 file: '' @ index1Path), this0)
         else
           (case ReadFully f 12 of
              (None, f1) \<Rightarrow> (Inl ''Failed to read index1 header'', this0)
            | (Some header, f1) \<Rightarrow>
                if take 4 header \<noteq> kIndex1Magic
                then (Inl ''index1 magic mismatch (expected IDX1)'', this0)
                else
                  (let version = ReadLe16 (drop 4 header) in
                   if version \<noteq> kVersion1 \<and> version \<noteq> kVersion2 \<and> version \<noteq> kVersion3
                   then (Inl ''Unsupported index1 version'', this0)
                   else
                     (let entryCount = ReadLe32 (drop 8 header) in
                      case read_entries f1 entryCount 0 [] of
                        (None, f2) \<Rightarrow>
                          (Inl ''Failed to read index1 entry'', this0\<lparr>index1Entries := []\<rparr>)
                      | (Some entries, f2) \<Rightarrow>
                          (let this1 = this0\<lparr>index1Entries := entries\<rparr> in
                           if index1Entries this1 = []
                           then (Inl ''index1 has no entries'', this1)
                           else if \<not> is_sorted (\<lambda>a b. startRva a < startRva b)
                                       (index1Entries this1)
                           then (Inl ''index1 entries are not sorted by startRva'',
                                 this1\<lparr>index1Entries := []\<rparr>)
                           else Load_index2 fs index2Path0 this1)))))"

text \<open>A default-constructed object.\<close>

definition new_lookup :: RvaIndexLookup where
  "new_lookup = \<lparr>index1Entries = [], index2Path = [], totalDumpLines = 0,
                 index2Stream = fresh_stream, index2OpenAttempted = False, lastError = [],
                 cachedBlockIndex = size_t_max, cachedBlock = empty_block\<rparr>"

section \<open>Notions used in the statements\<close>

text \<open>The fields of a block, by their position in its bytes.\<close>

definition block_startKey :: "byte list \<Rightarrow> uint64" where
  "block_startKey buf = ReadLe64 buf"

definition block_startValue :: "byte list \<Rightarrow> uint32" where
  "block_startValue buf = ReadLe32 (drop 8 buf)"

definition block_recordCount :: "byte list \<Rightarrow> uint32" where
  "block_recordCount buf = ReadLe32 (drop 12 buf)"

definition addressDelta :: "byte list \<Rightarrow> nat \<Rightarrow> uint32" where
  "addressDelta buf i = ReadLe32 (drop (16 + 8 * i) buf)"

definition rawValue :: "byte list \<Rightarrow> nat \<Rightarrow> uint32" where
  "rawValue buf i = ReadLe32 (drop (16 + 8 * i + 4) buf)"

text \<open>
  The decoding rule in the words of the specification: the address of record 0 is the
  start key plus its address delta, the address of a later record is the address of the
  record before plus its own address delta (64-bit unsigned arithmetic); the value of
  record 0 is its raw value, or the start value when the raw value is 0, the value of a
  later record is its raw value.
\<close>

fun spec_record_address :: "byte list \<Rightarrow> nat \<Rightarrow> uint64" where
  "spec_record_address buf 0 = block_startKey buf + ucast (addressDelta buf 0)"
| "spec_record_address buf (Suc i) =
     spec_record_address buf i + ucast (addressDelta buf (Suc i))"

definition spec_record_value :: "byte list \<Rightarrow> nat \<Rightarrow> uint32" where
  "spec_record_value buf i =
     (if i = 0 then (if rawValue buf 0 \<noteq> 0 then rawValue buf 0 else block_startValue buf)
      else rawValue buf i)"

text \<open>The two sequences as the record loop leaves them, before the order check.\<close>

definition decoded_records :: "byte list \<Rightarrow> DecodedBlock" where
  "decoded_records buf =
     decode_records buf (block_startKey buf) (block_startValue buf) (block_recordCount buf)
       0 16 (block_startKey buf) empty_block"

text \<open>
  The bytes of the block of a routing entry in the second file, when the seek and the read
  of \<^verbatim>\<open>LoadDecodedBlock\<close> deliver them.
\<close>

definition block_bytes :: "byte list \<Rightarrow> Index1Entry \<Rightarrow> byte list option" where
  "block_bytes content e =
     (if 0 \<le> sint (index2Offset e)
         \<and> nat (sint (index2Offset e)) + unat (index2Size e) \<le> length content
      then Some (take (unat (index2Size e)) (drop (nat (sint (index2Offset e))) content))
      else None)"

text \<open>What a call of \<^verbatim>\<open>LoadDecodedBlock\<close> that misses the cache computes for an entry.\<close>

definition decode_entry :: "byte list \<Rightarrow> Index1Entry \<Rightarrow> string + DecodedBlock" where
  "decode_entry content e =
     (if index2Size e < 16 then Inl ''Corrupt block: size smaller than block header''
      else case block_bytes content e of
             None \<Rightarrow> Inl ''Failed reading index2 block''
           | Some buf \<Rightarrow> decode_buffer e buf)"

definition block_of :: "RvaIndexLookup \<Rightarrow> nat \<Rightarrow> string + DecodedBlock" where
  "block_of this i = decode_entry (filedata (index2Stream this)) (index1Entries this ! i)"

text \<open>The cache slot, when it names a block of the table, holds that block as decoded.\<close>

definition cache_valid :: "RvaIndexLookup \<Rightarrow> bool" where
  "cache_valid this =
     (cachedBlockIndex this < length (index1Entries this)
        \<longrightarrow> block_of this (cachedBlockIndex this) = Inr (cachedBlock this))"

text \<open>
  The state of an object on which \<^verbatim>\<open>Load\<close> has succeeded, possibly followed by
  lookups: a non-empty sorted table of fewer than \<open>2 ^ 32\<close> entries, the second file
  open, the cache slot valid.
\<close>

definition loaded :: "RvaIndexLookup \<Rightarrow> bool" where
  "loaded this =
     (index1Entries this \<noteq> [] \<and> length (index1Entries this) < 2 ^ 32
      \<and> sorted (map startRva (index1Entries this))
      \<and> is_open (index2Stream this) \<and> cache_valid this)"

text \<open>The cache slot emptied, as \<^verbatim>\<open>Load\<close> leaves it.\<close>

definition cold :: "RvaIndexLookup \<Rightarrow> RvaIndexLookup" where
  "cold this = this\<lparr>cachedBlockIndex := size_t_max, cachedBlock := empty_block\<rparr>"

text \<open>
  The candidate block of a query: the last routing entry whose start key is at most the
  query.
\<close>

definition routes_to :: "RvaIndexLookup \<Rightarrow> uint64 \<Rightarrow> nat \<Rightarrow> bool" where
  "routes_to this q b =
     (b < length (index1Entries this) \<and> startRva (index1Entries this ! b) \<le> q
      \<and> list_all (\<lambda>j. q < startRva (index1Entries this ! j))
            [b + 1 ..< length (index1Entries this)])"

text \<open>
  Every block decodes and holds at least one record, and its keys lie between the start
  key of its routing entry and the start key of the next one.
\<close>

definition aligned :: "RvaIndexLookup \<Rightarrow> bool" where
  "aligned this =
     list_all (\<lambda>i. case block_of this i of
                       Inl err \<Rightarrow> False
                     | Inr b \<Rightarrow>
                         rvas b \<noteq> []
                         \<and> list_all (\<lambda>k. startRva (index1Entries this ! i) \<le> k
                                        \<and> (i + 1 < length (index1Entries this)
                                             \<longrightarrow> k \<le> startRva (index1Entries this ! (i + 1))))
                               (rvas b))
       [0 ..< length (index1Entries this)]"

text \<open>
  The records of a block, each key with its value, and all stored records, block after
  block.
\<close>

definition block_pairs :: "RvaIndexLookup \<Rightarrow> nat \<Rightarrow> (uint64 \<times> uint32) list" where
  "block_pairs this i =
     (case block_of this i of
        Inl err \<Rightarrow> []
      | Inr b \<Rightarrow> zip (rvas b) (lines b))"

definition stored_pairs :: "RvaIndexLookup \<Rightarrow> (uint64 \<times> uint32) list" where
  "stored_pairs this =
     concat (map (block_pairs this) [0 ..< length (index1Entries this)])"

text \<open>The value of the last stored record whose key is at most the query.\<close>

definition floor_value :: "(uint64 \<times> uint32) list \<Rightarrow> uint64 \<Rightarrow> uint32 option" where
  "floor_value ps q =
     (case filter (\<lambda>(k, v). k \<le> q) ps of
        [] \<Rightarrow> None
      | x # xs \<Rightarrow> Some (snd (last (x # xs))))"

text \<open>
  The routing table that \<^verbatim>\<open>Load\<close> has parsed when it reaches its checks of the
  table: the first file opens, its header is read with the right magic and a supported
  version, and every announced entry is read.
\<close>

definition index1_table :: "filesystem \<Rightarrow> string \<Rightarrow> Index1Entry list option" where
  "index1_table fs index1Path =
     (let f = stream_open fs index1Path fresh_stream
      in if failed f then None
         else
           (case ReadFully f 12 of
              (None, f1) \<Rightarrow> None
            | (Some header, f1) \<Rightarrow>
                if take 4 header \<noteq> kIndex1Magic then None
                else
                  (let version = ReadLe16 (drop 4 header) in
                   if version \<noteq> kVersion1 \<and> version \<noteq> kVersion2 \<and> version \<noteq> kVersion3
                   then None
                   else fst (read_entries f1 (ReadLe32 (drop 8 header)) 0 []))))"

text \<open>
  What a lookup returns on a loaded object, read off the decoded blocks: the candidate
  block, the floor inside it, the fallback to the block before.
\<close>

definition lookup_result ::
  "(nat \<Rightarrow> string + DecodedBlock) \<Rightarrow> Index1Entry list \<Rightarrow> uint64 \<Rightarrow> uint32 option" where
  "lookup_result blocks entries q =
     (if q < startRva (hd entries) then None
      else
        (let b = upper_bound (\<lambda>val entry. val < startRva entry) entries q - 1 in
         case blocks b of
           Inl err \<Rightarrow> None
         | Inr block \<Rightarrow>
             (case floorInBlock q block of
                Some v \<Rightarrow> Some v
              | None \<Rightarrow>
                  if b = 0 then None
                  else
                    (case blocks (b - 1) of
                       Inl err \<Rightarrow> None
                     | Inr prevBlock \<Rightarrow>
                         if lines prevBlock = [] then None
                         else Some (last (lines prevBlock))))))"

text \<open>
  The states an object goes through: it is constructed, then \<^verbatim>\<open>Load\<close> and
  \<^verbatim>\<open>FindClosestLowerOrEqualLine\<close> are called on it in any order, with any
  arguments and any files on disk at each call.
\<close>

inductive reachable :: "RvaIndexLookup \<Rightarrow> bool" where
  constructed: "reachable new_lookup"
| after_Load: "reachable this \<Longrightarrow> reachable (snd (Load fs index1Path index2Path0 this))"
| after_Find:
    "reachable this \<Longrightarrow> reachable (snd (FindClosestLowerOrEqualLine fs queryRva outLine this))"

section \<open>Example index files\<close>

text \<open>
  A version 2 pair of files: two routing entries with start keys 16 and 64; the first
  block stores the keys 16 and 32 with the values 5 (written as 0, so taken from the
  block header) and 7, the second block stores the key 72 with the value 11; the header
  of the second file announces 12345 values.
\<close>

definition ex_index1 :: "byte list" where
  "ex_index1 =
     [0x49, 0x44, 0x58, 0x31, 2, 0, 0, 0, 2, 0, 0, 0,
      16, 0, 0, 0, 0, 0, 0, 0, 16, 0, 0, 0, 0, 0, 0, 0, 32, 0, 0, 0, 0, 0, 0, 0,
      64, 0, 0, 0, 0, 0, 0, 0, 48, 0, 0, 0, 0, 0, 0, 0, 24, 0, 0, 0, 0, 0, 0, 0]"

definition ex_block0 :: "byte list" where
  "ex_block0 =
     [16, 0, 0, 0, 0, 0, 0, 0, 5, 0, 0, 0, 2, 0, 0, 0,
      0, 0, 0, 0, 0, 0, 0, 0, 16, 0, 0, 0, 7, 0, 0, 0]"

definition ex_block1 :: "byte list" where
  "ex_block1 =
     [64, 0, 0, 0, 0, 0, 0, 0, 9, 0, 0, 0, 1, 0, 0, 0, 8, 0, 0, 0, 11, 0, 0, 0]"

definition ex_index2 :: "byte list" where
  "ex_index2 =
     [0x49, 0x44, 0x58, 0x32, 2, 0, 0, 0, 2, 0, 0, 0, 57, 48, 0, 0] @ ex_block0 @ ex_block1"

definition ex_fs :: filesystem where
  "ex_fs path =
     (if path = ''index1.bin'' then Some ex_index1
      else if path = ''index2.bin'' then Some ex_index2 else None)"

definition ex_entry0 :: Index1Entry where
  "ex_entry0 = \<lparr>startRva = 16, index2Offset = 16, index2Size = 32\<rparr>"

definition ex_entry1 :: Index1Entry where
  "ex_entry1 = \<lparr>startRva = 64, index2Offset = 48, index2Size = 24\<rparr>"

text \<open>The object after loading these files.\<close>

definition ex_lookup :: RvaIndexLookup where
  "ex_lookup =
     \<lparr>index1Entries = [ex_entry0, ex_entry1], index2Path = ''index2.bin'',
      totalDumpLines = 12345,
      index2Stream = \<lparr>is_open = True, filedata = ex_index2, gpos = 16, failed = False\<rparr>,
      index2OpenAttempted = True, lastError = [],
      cachedBlockIndex = size_t_max, cachedBlock = empty_block\<rparr>"

text \<open>
  The same object with a routing table whose second entry declares a block of 32 bytes,
  8 more than the second file holds from that offset.
\<close>

definition truncated_lookup :: RvaIndexLookup where
  "truncated_lookup =
     ex_lookup\<lparr>index1Entries := [ex_entry0, ex_entry1\<lparr>index2Size := 32\<rparr>]\<rparr>"

text \<open>
  A version 1 pair in which the blocks do not follow the routing keys: the entries start
  at 0 and 50, the first block stores the key 100 (value 5), the second the key 200
  (value 8).
\<close>

definition skew_index1 :: "byte list" where
  "skew_index1 =
     [0x49, 0x44, 0x58, 0x31, 1, 0, 0, 0, 2, 0, 0, 0,
      0, 0, 0, 0, 0, 0, 0, 0, 12, 0, 0, 0, 0, 0, 0, 0, 24, 0, 0, 0, 0, 0, 0, 0,
      50, 0, 0, 0, 0, 0, 0, 0, 36, 0, 0, 0, 0, 0, 0, 0, 24, 0, 0, 0, 0, 0, 0, 0]"

definition skew_index2 :: "byte list" where
  "skew_index2 =
     [0x49, 0x44, 0x58, 0x32, 1, 0, 0, 0, 2, 0, 0, 0,
      0, 0, 0, 0, 0, 0, 0, 0, 5, 0, 0, 0, 1, 0, 0, 0, 100, 0, 0, 0, 0, 0, 0, 0,
      50, 0, 0, 0, 0, 0, 0, 0, 9, 0, 0, 0, 1, 0, 0, 0, 150, 0, 0, 0, 8, 0, 0, 0]"

definition skew_fs :: filesystem where
  "skew_fs path =
     (if path = ''index1.bin'' then Some skew_index1
      else if path = ''index2.bin'' then Some skew_index2 else None)"

definition skew_lookup :: RvaIndexLookup where
  "skew_lookup =
     \<lparr>index1Entries = [\<lparr>startRva = 0, index2Offset = 12, index2Size = 24\<rparr>,
                       \<lparr>startRva = 50, index2Offset = 36, index2Size = 24\<rparr>],
      index2Path = ''index2.bin'', totalDumpLines = 0,
      index2Stream = \<lparr>is_open = True, filedata = skew_index2, gpos = 12, failed = False\<rparr>,
      index2OpenAttempted = True, lastError = [],
      cachedBlockIndex = size_t_max, cachedBlock = empty_block\<rparr>"

text \<open>
  A version 1 pair whose first block has no record: the entries start at 0 and 50, the
  second block stores the key 200 (value 8).
\<close>

definition gap_index1 :: "byte list" where
  "gap_index1 =
     [0x49, 0x44, 0x58, 0x31, 1, 0, 0, 0, 2, 0, 0, 0,
      0, 0, 0, 0, 0, 0, 0, 0, 12, 0, 0, 0, 0, 0, 0, 0, 16, 0, 0, 0, 0, 0, 0, 0,
      50, 0, 0, 0, 0, 0, 0, 0, 28, 0, 0, 0, 0, 0, 0, 0, 24, 0, 0, 0, 0, 0, 0, 0]"

definition gap_index2 :: "byte list" where
  "gap_index2 =
     [0x49, 0x44, 0x58, 0x32, 1, 0, 0, 0, 2, 0, 0, 0,
      0, 0, 0, 0, 0, 0, 0, 0, 5, 0, 0, 0, 0, 0, 0, 0,
      50, 0, 0, 0, 0, 0, 0, 0, 9, 0, 0, 0, 1, 0, 0, 0, 150, 0, 0, 0, 8, 0, 0, 0]"

definition gap_fs :: filesystem where
  "gap_fs path =
     (if path = ''index1.bin'' then Some gap_index1
      else if path = ''index2.bin'' then Some gap_index2 else None)"

definition gap_lookup :: RvaIndexLookup where
  "gap_lookup =
     \<lparr>index1Entries = [\<lparr>startRva = 0, index2Offset = 12, index2Size = 16\<rparr>,
                       \<lparr>startRva = 50, index2Offset = 28, index2Size = 24\<rparr>],
      index2Path = ''index2.bin'', totalDumpLines = 0,
      index2Stream = \<lparr>is_open = True, filedata = gap_index2, gpos = 12, failed = False\<rparr>,
      index2OpenAttempted = True, lastError = [],
      cachedBlockIndex = size_t_max, cachedBlock = empty_block\<rparr>"

text \<open>
  A version 1 pair with one block of two records: the start key is \<open>2 ^ 64 - 1\<close>,
  the address deltas are 0 and 1, the values 5 and 7. The size of the block, 32, is 16
  plus 8 bytes per record.
\<close>

definition wrap_index1 :: "byte list" where
  "wrap_index1 =
     [0x49, 0x44, 0x58, 0x31, 1, 0, 0, 0, 1, 0, 0, 0,
      0, 0, 0, 0, 0, 0, 0, 0, 12, 0, 0, 0, 0, 0, 0, 0, 32, 0, 0, 0, 0, 0, 0, 0]"

definition wrap_block :: "byte list" where
  "wrap_block =
     [255, 255, 255, 255, 255, 255, 255, 255, 5, 0, 0, 0, 2, 0, 0, 0,
      0, 0, 0, 0, 5, 0, 0, 0, 1, 0, 0, 0, 7, 0, 0, 0]"

definition wrap_index2 :: "byte list" where
  "wrap_index2 = [0x49, 0x44, 0x58, 0x32, 1, 0, 0, 0, 1, 0, 0, 0] @ wrap_block"

definition wrap_fs :: filesystem where
  "wrap_fs path =
     (if path = ''index1.bin'' then Some wrap_index1
      else if path = ''index2.bin'' then Some wrap_index2 else None)"

definition wrap_lookup :: RvaIndexLookup where
  "wrap_lookup =
     \<lparr>index1Entries = [\<lparr>startRva = 0, index2Offset = 12, index2Size = 32\<rparr>],
      index2Path = ''index2.bin'', totalDumpLines = 0,
      index2Stream = \<lparr>is_open = True, filedata = wrap_index2, gpos = 12, failed = False\<rparr>,
      index2OpenAttempted = True, lastError = [],
      cachedBlockIndex = size_t_max, cachedBlock = empty_block\<rparr>"

text \<open>
  A version 2 pair whose second file announces two blocks and 7 values while the routing
  table has one entry.
\<close>

definition short_index1 :: "byte list" where
  "short_index1 =
     [0x49, 0x44, 0x58, 0x31, 2, 0, 0, 0, 1, 0, 0, 0,
      0, 0, 0, 0, 0, 0, 0, 0, 16, 0, 0, 0, 0, 0, 0, 0, 16, 0, 0, 0, 0, 0, 0, 0]"

definition short_index2 :: "byte list" where
  "short_index2 =
     [0x49, 0x44, 0x58, 0x32, 2, 0, 0, 0, 2, 0, 0, 0, 7, 0, 0, 0,
      0, 0, 0, 0, 0, 0, 0, 0, 5, 0, 0, 0, 0, 0, 0, 0]"

definition short_fs :: filesystem where
  "short_fs path =
     (if path = ''index1.bin'' then Some short_index1
      else if path = ''index2.bin'' then Some short_index2 else None)"

text \<open>A first file whose two entries have the start keys 50 and 0, in this order.\<close>

definition unsorted_index1 :: "byte list" where
  "unsorted_index1 =
     [0x49, 0x44, 0x58, 0x31, 1, 0, 0, 0, 2, 0, 0, 0,
      50, 0, 0, 0, 0, 0, 0, 0, 12, 0, 0, 0, 0, 0, 0, 0, 24, 0, 0, 0, 0, 0, 0, 0,
      0, 0, 0, 0, 0, 0, 0, 0, 36, 0, 0, 0, 0, 0, 0, 0, 24, 0, 0, 0, 0, 0, 0, 0]"

definition unsorted_fs :: filesystem where
  "unsorted_fs path =
     (if path = ''index1.bin'' then Some unsorted_index1
      else if path = ''index2.bin'' then Some skew_index2 else None)"

section \<open>Standard algorithms on sorted ranges\<close>

lemma is_sorted_less: "is_sorted (\<lambda>a b. f a < f b) xs = sorted (map f xs)"
  for f :: "'a \<Rightarrow> 'b::linorder"
proof (induction xs rule: induct_list012)
  case (3 x y zs)
  then show ?case by (auto simp: not_less intro: order_trans)
qed simp_all

lemma is_sorted_words: "is_sorted (<) xs = sorted xs"
  for xs :: "'a::linorder list"
  using is_sorted_less [of "\<lambda>x. x" xs] by simp

lemma upper_bound_loop_partition:
  assumes "first + len \<le> length xs"
    and "\<forall>j<first. \<not> cmp v (xs ! j)"
    and "\<forall>j. first + len \<le> j \<and> j < length xs \<longrightarrow> cmp v (xs ! j)"
    and "\<forall>i j. i \<le> j \<and> j < length xs \<and> cmp v (xs ! i) \<longrightarrow> cmp v (xs ! j)"
  shows "first \<le> upper_bound_loop cmp xs v first len
       \<and> upper_bound_loop cmp xs v first len \<le> first + len
       \<and> (\<forall>j<upper_bound_loop cmp xs v first len. \<not> cmp v (xs ! j))
       \<and> (\<forall>j. upper_bound_loop cmp xs v first len \<le> j \<and> j < length xs \<longrightarrow> cmp v (xs ! j))"
  using assms
proof (induction cmp xs v first len rule: upper_bound_loop.induct)
  case (1 cmp xs v first len)
  show ?case
  proof (cases "0 < len")
    case False
    then have "upper_bound_loop cmp xs v first len = first"
      by (subst upper_bound_loop.simps) simp
    moreover have "len = 0" using False by simp
    ultimately show ?thesis using "1.prems"(2,3) by simp
  next
    case True
    define half where "half = len div 2"
    define middle where "middle = first + half"
    have hl: "half < len" using True by (simp add: half_def)
    have mid: "middle < length xs" using hl "1.prems"(1) by (simp add: middle_def)
    show ?thesis
    proof (cases "cmp v (xs ! middle)")
      case c: True
      have up: "\<forall>j. first + half \<le> j \<and> j < length xs \<longrightarrow> cmp v (xs ! j)"
        using c "1.prems"(4) unfolding middle_def by blast
      have "first \<le> upper_bound_loop cmp xs v first half
       \<and> upper_bound_loop cmp xs v first half \<le> first + half
       \<and> (\<forall>j<upper_bound_loop cmp xs v first half. \<not> cmp v (xs ! j))
       \<and> (\<forall>j. upper_bound_loop cmp xs v first half \<le> j \<and> j < length xs \<longrightarrow> cmp v (xs ! j))"
      proof (rule "1.IH"(1) [OF True half_def middle_def c])
        show "first + half \<le> length xs" using hl "1.prems"(1) by simp
      qed (use "1.prems" up in blast)+
      moreover have "upper_bound_loop cmp xs v first len = upper_bound_loop cmp xs v first half"
        using True c by (subst upper_bound_loop.simps) (simp add: half_def middle_def Let_def)
      ultimately show ?thesis using hl "1.prems"(3) by (simp del: One_nat_def) 
    next
      case c: False
      have low: "\<forall>j<middle + 1. \<not> cmp v (xs ! j)"
      proof (intro allI impI)
        fix j assume "j < middle + 1"
        then have "j \<le> middle" by simp
        then show "\<not> cmp v (xs ! j)" using c mid "1.prems"(4) by blast
      qed
      have eq: "middle + 1 + (len - half - 1) = first + len"
        using hl by (simp add: middle_def)
      have "middle + 1 \<le> upper_bound_loop cmp xs v (middle + 1) (len - half - 1)
       \<and> upper_bound_loop cmp xs v (middle + 1) (len - half - 1) \<le> middle + 1 + (len - half - 1)
       \<and> (\<forall>j<upper_bound_loop cmp xs v (middle + 1) (len - half - 1). \<not> cmp v (xs ! j))
       \<and> (\<forall>j. upper_bound_loop cmp xs v (middle + 1) (len - half - 1) \<le> j \<and> j < length xs \<longrightarrow> cmp v (xs ! j))"
      proof (rule "1.IH"(2) [OF True half_def middle_def c])
        show "middle + 1 + (len - half - 1) \<le> length xs" using eq "1.prems"(1) by simp
        show "\<forall>j. middle + 1 + (len - half - 1) \<le> j \<and> j < length xs \<longrightarrow> cmp v (xs ! j)"
          using "1.prems"(3) unfolding eq .
      qed (use "1.prems" low in blast)+
      moreover have "upper_bound_loop cmp xs v first len
          = upper_bound_loop cmp xs v (middle + 1) (len - half - 1)"
        using True c by (subst upper_bound_loop.simps) (simp add: half_def middle_def Let_def)
      ultimately show ?thesis using eq unfolding middle_def by simp
    qed
  qed
qed

lemma upper_bound_sorted:
  fixes f :: "'a \<Rightarrow> 'b::linorder"
  assumes "sorted (map f xs)"
  shows "upper_bound (\<lambda>v x. v < f x) xs q \<le> length xs
       \<and> (\<forall>j<upper_bound (\<lambda>v x. v < f x) xs q. f (xs ! j) \<le> q)
       \<and> (\<forall>j. upper_bound (\<lambda>v x. v < f x) xs q \<le> j \<and> j < length xs \<longrightarrow> q < f (xs ! j))"
proof -
  have mono: "\<forall>i j. i \<le> j \<and> j < length xs \<and> q < f (xs ! i) \<longrightarrow> q < f (xs ! j)"
  proof (intro allI impI)
    fix i j assume h: "i \<le> j \<and> j < length xs \<and> q < f (xs ! i)"
    then have "map f xs ! i \<le> map f xs ! j"
      using assms by (simp add: sorted_iff_nth_mono)
    then show "q < f (xs ! j)" using h by auto
  qed
  have "0 \<le> upper_bound_loop (\<lambda>v x. v < f x) xs q 0 (length xs)
       \<and> upper_bound_loop (\<lambda>v x. v < f x) xs q 0 (length xs) \<le> 0 + length xs
       \<and> (\<forall>j<upper_bound_loop (\<lambda>v x. v < f x) xs q 0 (length xs). \<not> q < f (xs ! j))
       \<and> (\<forall>j. upper_bound_loop (\<lambda>v x. v < f x) xs q 0 (length xs) \<le> j \<and> j < length xs
              \<longrightarrow> q < f (xs ! j))"
  proof (rule upper_bound_loop_partition)
    show "\<forall>i j. i \<le> j \<and> j < length xs \<and> q < f (xs ! i) \<longrightarrow> q < f (xs ! j)"
      by (rule mono)
  qed auto
  then show ?thesis by (simp add: upper_bound_def not_less)
qed

lemma upper_bound_sorted_id:
  fixes xs :: "'a::linorder list"
  assumes "sorted xs"
  shows "upper_bound (<) xs q \<le> length xs
       \<and> (\<forall>j<upper_bound (<) xs q. xs ! j \<le> q)
       \<and> (\<forall>j. upper_bound (<) xs q \<le> j \<and> j < length xs \<longrightarrow> q < xs ! j)"
  using upper_bound_sorted [of "\<lambda>x. x" xs q] assms by simp

section \<open>The record loop and the decoding of a block\<close>

lemma decode_records_length:
  "length (rvas d) = i \<Longrightarrow> length (lines d) = i \<Longrightarrow> i \<le> unat rc \<Longrightarrow>
   length (rvas (decode_records buf s l rc i off cur d)) = unat rc
   \<and> length (lines (decode_records buf s l rc i off cur d)) = unat rc"
proof (induction buf s l rc i off cur d rule: decode_records.induct)
  case (1 buf s l rc i off cur d)
  show ?case
  proof (cases "i < unat rc")
    case True
    then show ?thesis
      using "1.prems" "1.IH" [OF True refl refl refl refl refl refl]
      by (subst (1 2) decode_records.simps) (simp add: Let_def)
  next
    case False
    then show ?thesis using "1.prems"
      by (subst (1 2) decode_records.simps) simp
  qed
qed

lemma decode_records_prefix:
  "(j < length (rvas d) \<longrightarrow> rvas (decode_records buf s l rc i off cur d) ! j = rvas d ! j)
   \<and> (j < length (lines d) \<longrightarrow> lines (decode_records buf s l rc i off cur d) ! j = lines d ! j)"
proof (induction buf s l rc i off cur d rule: decode_records.induct)
  case (1 buf s l rc i off cur d)
  show ?case
  proof (cases "i < unat rc")
    case True
    then show ?thesis
      using "1.IH" [OF True refl refl refl refl refl refl]
      by (subst (1 2) decode_records.simps) (simp add: Let_def nth_append)
  next
    case False
    then show ?thesis
      by (subst (1 2) decode_records.simps) simp
  qed
qed

lemma decode_records_nth:
  "length (rvas d) = i \<Longrightarrow> length (lines d) = i \<Longrightarrow> off = 16 + 8 * i \<Longrightarrow>
   (0 < i \<longrightarrow> cur = rvas d ! (i - 1)) \<Longrightarrow> i \<le> j \<Longrightarrow> j < unat rc \<Longrightarrow>
   rvas (decode_records buf s l rc i off cur d) ! j =
     (if j = 0 then s + ucast (addressDelta buf 0)
      else rvas (decode_records buf s l rc i off cur d) ! (j - 1) + ucast (addressDelta buf j))
   \<and> lines (decode_records buf s l rc i off cur d) ! j =
     (if j = 0 then (if rawValue buf 0 = 0 then l else rawValue buf 0) else rawValue buf j)"
proof (induction buf s l rc i off cur d rule: decode_records.induct)
  case (1 buf s l rc i off cur d)
  have lt: "i < unat rc" using "1.prems" by simp
  let ?addrDelta = "ReadLe32 (drop off buf)"
  let ?absoluteLine = "ReadLe32 (drop (off + 4) buf)"
  let ?cur1 = "(if i = 0 then s + ucast ?addrDelta else cur + ucast ?addrDelta)"
  let ?line = "(if i = 0 then (if ?absoluteLine = 0 then l else ?absoluteLine)
                     else ?absoluteLine)"
  let ?d1 = "d\<lparr>lines := lines d @ [?line]\<rparr>"
  let ?d2 = "?d1\<lparr>rvas := rvas ?d1 @ [?cur1]\<rparr>"
  let ?res = "decode_records buf s l rc (i + 1) (off + 8) ?cur1 ?d2"
  have unfold: "decode_records buf s l rc i off cur d = ?res"
    using lt by (subst decode_records.simps) (simp add: Let_def)
  have ad: "?addrDelta = addressDelta buf i" and al: "?absoluteLine = rawValue buf i"
    using "1.prems"(3) by (simp_all add: addressDelta_def rawValue_def)
  have len2: "length (rvas ?d2) = i + 1" "length (lines ?d2) = i + 1"
    using "1.prems"(1,2) by simp_all
  have pre: "\<And>k. k < i + 1 \<Longrightarrow> rvas ?res ! k = rvas ?d2 ! k \<and> lines ?res ! k = lines ?d2 ! k"
    using decode_records_prefix [of _ ?d2 buf s l rc "i + 1" "off + 8" ?cur1] len2
    by simp
  show ?case
  proof (cases "j = i")
    case True
    have a: "rvas ?res ! i = ?cur1" "lines ?res ! i = ?line"
      using pre [of i] "1.prems"(1,2) by (simp_all add: nth_append)
    have b: "0 < i \<Longrightarrow> rvas ?res ! (i - 1) = cur"
      using pre [of "i - 1"] "1.prems"(1,2,4) by (simp add: nth_append)
    show ?thesis
      unfolding unfold True using a b
      by (auto simp: ad al)
  next
    case False
    then have ij: "i + 1 \<le> j" using "1.prems"(5) by simp
    have c: "0 < i + 1 \<longrightarrow> ?cur1 = rvas ?d2 ! (i + 1 - 1)"
      using "1.prems"(1,2) by (simp add: nth_append)
    have o: "off + 8 = 16 + 8 * (i + 1)" using "1.prems"(3) by simp
    have "rvas ?res ! j =
        (if j = 0 then s + ucast (addressDelta buf 0)
         else rvas ?res ! (j - 1) + ucast (addressDelta buf j))
      \<and> lines ?res ! j =
        (if j = 0 then (if rawValue buf 0 = 0 then l else rawValue buf 0) else rawValue buf j)"
      by (rule "1.IH" [OF lt refl refl refl refl refl refl len2 o c ij "1.prems"(6)])
    then show ?thesis unfolding unfold .
  qed
qed

lemma expected_size_iff:
  "((16 :: uint64) + ucast (rc :: uint32) * 8 = ucast (sz :: uint32))
     = (16 + 8 * unat rc = unat sz)"
proof -
  have rc: "unat rc < 2 ^ 32" and sz: "unat sz < 2 ^ 32"
    using unsigned_less [of rc, where ?'a = nat] unsigned_less [of sz, where ?'a = nat]
    by simp_all
  have u1: "unat (ucast rc :: uint64) = unat rc"
    using rc by (simp add: unsigned_ucast_eq take_bit_nat_eq_self)
  have u2: "unat (ucast sz :: uint64) = unat sz"
    using sz by (simp add: unsigned_ucast_eq take_bit_nat_eq_self)
  have "unat ((16 :: uint64) + ucast rc * 8) = 16 + 8 * unat rc"
    using rc by (simp add: unat_word_ariths u1)
  then show ?thesis
    by (metis u2 word_unat_eq_iff)
qed

lemma decode_buffer_eq:
  "decode_buffer e buf =
     (if 16 + 8 * unat (block_recordCount buf) \<noteq> unat (index2Size e)
      then Inl ''Corrupt block: record count does not match block size''
      else if \<not> sorted (rvas (decoded_records buf))
      then Inl ''Corrupt block: RVAs are not sorted''
      else Inr (decoded_records buf))"
proof -
  have s: "(rvas (decoded_records buf) \<noteq> [] \<and> \<not> is_sorted (<) (rvas (decoded_records buf)))
      = (\<not> sorted (rvas (decoded_records buf)))"
    by (auto simp: is_sorted_words)
  show ?thesis
    unfolding decode_buffer_def Let_def expected_size_iff
    using s by (simp add: decoded_records_def block_startKey_def block_startValue_def
        block_recordCount_def)
qed

lemma decoded_records_length:
  "length (rvas (decoded_records buf)) = unat (block_recordCount buf)
   \<and> length (lines (decoded_records buf)) = unat (block_recordCount buf)"
  unfolding decoded_records_def
  by (rule decode_records_length) (simp_all add: empty_block_def)

lemma EnsureIndex2Open_open:
  "is_open (index2Stream this) \<Longrightarrow> EnsureIndex2Open fs this = (Inr (), this)"
  by (simp add: EnsureIndex2Open_def)

lemma ReadFully_block:
  assumes "is_open s"
  shows "fst (ReadFully (seekg (stream_clear s) (sint (index2Offset e))) (unat (index2Size e)))
           = block_bytes (filedata s) e"
    and "is_open (snd (ReadFully (seekg (stream_clear s) (sint (index2Offset e)))
           (unat (index2Size e))))"
    and "filedata (snd (ReadFully (seekg (stream_clear s) (sint (index2Offset e)))
           (unat (index2Size e)))) = filedata s"
  using assms
  by (auto simp: ReadFully_def seekg_def stream_clear_def block_bytes_def)

section \<open>Lookups on a loaded object\<close>

lemma block_of_cong:
  "index1Entries t = index1Entries this \<Longrightarrow>
   filedata (index2Stream t) = filedata (index2Stream this) \<Longrightarrow> block_of t = block_of this"
  by (rule ext) (simp add: block_of_def)

lemma LoadDecodedBlock_loaded:
  assumes "loaded this" and "i < length (index1Entries this)"
  shows "fst (LoadDecodedBlock fs i NonNull this) = block_of this i
    \<and> loaded (snd (LoadDecodedBlock fs i NonNull this))
    \<and> index1Entries (snd (LoadDecodedBlock fs i NonNull this)) = index1Entries this
    \<and> filedata (index2Stream (snd (LoadDecodedBlock fs i NonNull this)))
        = filedata (index2Stream this)
    \<and> totalDumpLines (snd (LoadDecodedBlock fs i NonNull this)) = totalDumpLines this"
proof -
  let ?e = "index1Entries this ! i"
  let ?r = "ReadFully (seekg (stream_clear (index2Stream this)) (sint (index2Offset ?e)))
              (unat (index2Size ?e))"
  have op: "is_open (index2Stream this)" using assms(1) by (simp add: loaded_def)
  note rf = ReadFully_block [OF op, of ?e]
  show ?thesis
  proof (cases "cachedBlockIndex this = i")
    case True
    then have "block_of this i = Inr (cachedBlock this)"
      using assms by (simp add: loaded_def cache_valid_def)
    then show ?thesis
      using True assms by (simp add: LoadDecodedBlock_def EnsureIndex2Open_open [OF op])
  next
    case miss: False
    show ?thesis
    proof (cases "index2Size ?e < 16")
      case True
      then show ?thesis
        using miss assms
        by (simp add: LoadDecodedBlock_def EnsureIndex2Open_open [OF op] block_of_def
            decode_entry_def)
    next
      case big: False
      obtain a s where r: "?r = (a, s)" by (cases ?r)
      have a: "a = block_bytes (filedata (index2Stream this)) ?e"
        and s: "is_open s" "filedata s = filedata (index2Stream this)"
        using rf r by simp_all
      show ?thesis
      proof (cases a)
        case None
        have l: "loaded (this\<lparr>index2Stream := s\<rparr>)"
          using assms(1) s by (simp add: loaded_def cache_valid_def block_of_def)
        have bb: "block_bytes (filedata (index2Stream this)) ?e = None"
          using a None by simp
        show ?thesis
          using miss big assms(2) r None l s
          by (simp add: LoadDecodedBlock_def EnsureIndex2Open_open [OF op] block_of_def
              decode_entry_def Let_def bb)
      next
        case (Some buf)
        have bb: "block_bytes (filedata (index2Stream this)) ?e = Some buf"
          using a Some by simp
        have bo: "block_of this i = decode_buffer ?e buf"
          using big by (simp add: block_of_def decode_entry_def bb)
        show ?thesis
        proof (cases "decode_buffer ?e buf")
          case (Inl err)
          have l: "loaded (this\<lparr>index2Stream := s\<rparr>)"
            using assms(1) s by (simp add: loaded_def cache_valid_def block_of_def)
          show ?thesis
            using miss big assms(2) r Some bo Inl l s
            by (simp add: LoadDecodedBlock_def EnsureIndex2Open_open [OF op] Let_def)
        next
          case (Inr decoded)
          have l: "loaded (this\<lparr>index2Stream := s, cachedBlockIndex := i,
                      cachedBlock := decoded\<rparr>)"
            using assms s bo Inr by (simp add: loaded_def cache_valid_def block_of_def)
          show ?thesis
            using miss big assms(2) r Some bo Inr l s
            by (simp add: LoadDecodedBlock_def EnsureIndex2Open_open [OF op] Let_def)
        qed
      qed
    qed
  qed
qed

lemma FindClosestLowerOrEqualLine_loaded:
  assumes "loaded this"
  shows "fst (FindClosestLowerOrEqualLine fs q NonNull this)
           = lookup_result (block_of this) (index1Entries this) q
    \<and> loaded (snd (FindClosestLowerOrEqualLine fs q NonNull this))
    \<and> index1Entries (snd (FindClosestLowerOrEqualLine fs q NonNull this)) = index1Entries this
    \<and> filedata (index2Stream (snd (FindClosestLowerOrEqualLine fs q NonNull this)))
        = filedata (index2Stream this)
    \<and> totalDumpLines (snd (FindClosestLowerOrEqualLine fs q NonNull this))
        = totalDumpLines this"
proof -
  let ?es = "index1Entries this"
  let ?n = "upper_bound (\<lambda>val entry. val < startRva entry) ?es q"
  have ne: "?es \<noteq> []" and srt: "sorted (map startRva ?es)"
    using assms by (simp_all add: loaded_def)
  note ub = upper_bound_sorted [OF srt, of q]
  show ?thesis
  proof (cases "q < startRva (hd ?es)")
    case True
    then show ?thesis
      using ne assms by (simp add: FindClosestLowerOrEqualLine_def lookup_result_def)
  next
    case False
    have "\<not> q < startRva (?es ! 0)" using False ne by (simp add: hd_conv_nth)
    then have pos: "0 < ?n" using ub ne by (metis length_greater_0_conv not_gr_zero zero_le)
    have lt: "?n - 1 < length ?es" using pos ub [THEN conjunct1] by arith
    define b where "b = ?n - 1"
    have nb: "?n - 1 = b" by (simp add: b_def)
    have ltb: "b < length ?es" using lt by (simp add: b_def)
    define t1 where "t1 = snd (LoadDecodedBlock fs b NonNull this)"
    have l1: "LoadDecodedBlock fs b NonNull this = (block_of this b, t1)"
      using LoadDecodedBlock_loaded [OF assms ltb, of fs] by (simp add: t1_def prod_eq_iff)
    have p1: "loaded t1" "index1Entries t1 = ?es"
      "filedata (index2Stream t1) = filedata (index2Stream this)"
      "totalDumpLines t1 = totalDumpLines this"
      using LoadDecodedBlock_loaded [OF assms ltb, of fs] by (simp_all add: t1_def)
    have bo1: "block_of t1 = block_of this"
      by (rule block_of_cong) (simp_all add: p1)
    have start: "FindClosestLowerOrEqualLine fs q NonNull this =
      (case block_of this b of
         Inl err \<Rightarrow> (None, t1)
       | Inr block \<Rightarrow>
           (case floorInBlock q block of
              Some v \<Rightarrow> (Some v, t1)
            | None \<Rightarrow>
                if b = 0 then (None, t1)
                else
                  (case LoadDecodedBlock fs (b - 1) NonNull t1 of
                     (Inl err, this2) \<Rightarrow> (None, this2)
                   | (Inr prevBlock, this2) \<Rightarrow>
                       if lines prevBlock = [] then (None, this2)
                       else (Some (last (lines prevBlock)), this2))))"
      using False ne pos unfolding FindClosestLowerOrEqualLine_def Let_def nb
      by (simp add: l1)
    have spec: "lookup_result (block_of this) ?es q =
      (case block_of this b of
         Inl err \<Rightarrow> None
       | Inr block \<Rightarrow>
           (case floorInBlock q block of
              Some v \<Rightarrow> Some v
            | None \<Rightarrow>
                if b = 0 then None
                else
                  (case block_of this (b - 1) of
                     Inl err \<Rightarrow> None
                   | Inr prevBlock \<Rightarrow>
                       if lines prevBlock = [] then None
                       else Some (last (lines prevBlock)))))"
      using False unfolding lookup_result_def Let_def nb by simp
    show ?thesis
    proof (cases "block_of this b")
      case (Inl err)
      then show ?thesis unfolding start spec using p1 by simp
    next
      case (Inr block)
      show ?thesis
      proof (cases "floorInBlock q block")
        case (Some v)
        then show ?thesis unfolding start spec using p1 Inr by simp
      next
        case None
        show ?thesis
        proof (cases "b = 0")
          case True
          then show ?thesis unfolding start spec using p1 Inr None by simp
        next
          case nz: False
          have lt2: "b - 1 < length (index1Entries t1)" using ltb p1 by simp
          define t2 where "t2 = snd (LoadDecodedBlock fs (b - 1) NonNull t1)"
          have l2: "LoadDecodedBlock fs (b - 1) NonNull t1 = (block_of this (b - 1), t2)"
            using LoadDecodedBlock_loaded [OF p1(1) lt2, of fs] bo1
            by (simp add: t2_def prod_eq_iff)
          have p2: "loaded t2" "index1Entries t2 = ?es"
            "filedata (index2Stream t2) = filedata (index2Stream this)"
            "totalDumpLines t2 = totalDumpLines this"
            using LoadDecodedBlock_loaded [OF p1(1) lt2, of fs] p1 by (simp_all add: t2_def)
          show ?thesis
            unfolding start spec l2 using Inr None nz p2
            by (simp split: sum.splits)
        qed
      qed
    qed
  qed
qed

section \<open>Loading\<close>

lemma read_entries_length:
  "read_entries f ec i acc = (Some es, f') \<Longrightarrow> length acc = i \<Longrightarrow> i \<le> unat ec \<Longrightarrow>
   length es = unat ec"
proof (induction f ec i acc rule: read_entries.induct)
  case (1 f ec i acc)
  show ?case
  proof (cases "i < unat ec")
    case False
    then show ?thesis using "1.prems" by (subst (asm) read_entries.simps) simp
  next
    case True
    obtain a f1 where r: "ReadFully f 24 = (a, f1)" by (cases "ReadFully f 24")
    show ?thesis
    proof (cases a)
      case None
      then show ?thesis
        using "1.prems"(1) True r by (subst (asm) read_entries.simps) simp
    next
      case (Some entryBuf)
      let ?entry = "\<lparr>startRva = ReadLe64 entryBuf, index2Offset = ReadLe64 (drop 8 entryBuf),
                      index2Size = ReadLe32 (drop 16 entryBuf)\<rparr>"
      have "read_entries f1 ec (i + 1) (acc @ [?entry]) = (Some es, f')"
        using "1.prems"(1) True r Some by (subst (asm) read_entries.simps) (simp add: Let_def)
      then show ?thesis
        using "1.IH" [OF True r [symmetric] Some refl] "1.prems"(2) True by simp
    qed
  qed
qed

lemma ReadLe16_take: "6 \<le> length bs \<Longrightarrow> ReadLe16 (drop 4 (take 12 bs)) = ReadLe16 (drop 4 bs)"
  by (simp add: ReadLe16_def)

lemma ReadLe32_take8: "12 \<le> length bs \<Longrightarrow> ReadLe32 (drop 8 (take 12 bs)) = ReadLe32 (drop 8 bs)"
  by (simp add: ReadLe32_def)

lemma ReadLe32_take4: "n + 4 \<le> length bs \<Longrightarrow> ReadLe32 (take 4 (drop n bs)) = ReadLe32 (drop n bs)"
  by (simp add: ReadLe32_def)

lemma Load_check_count_Inr:
  "Load_check_count blockCount this = (Inr u, t) \<Longrightarrow>
   t = this \<and> unat blockCount = length (index1Entries this)"
  by (auto simp: Load_check_count_def split: if_splits)

lemma Load_check_count_Inl:
  "Load_check_count blockCount this = (Inl err, t) \<Longrightarrow> index1Entries t = []"
  by (auto simp: Load_check_count_def clear_table_def split: if_splits)

lemma Load_index2_Inl:
  "Load_index2 fs p2 this0 = (Inl err, t) \<Longrightarrow> index1Entries t = []"
  by (auto simp: Load_index2_def clear_table_def Let_def
      split: if_splits prod.splits option.splits sum.splits dest: Load_check_count_Inl)

lemma Load_index2_Inr:
  assumes "Load_index2 fs p2 this0 = (Inr u, t)"
    and "\<not> is_open (index2Stream this0)" and "\<not> index2OpenAttempted this0"
    and "totalDumpLines this0 = 0"
  shows "\<exists>bytes2. fs p2 = Some bytes2 \<and> 12 \<le> length bytes2
    \<and> is_open (index2Stream t) \<and> filedata (index2Stream t) = bytes2
    \<and> index1Entries t = index1Entries this0
    \<and> cachedBlockIndex t = cachedBlockIndex this0 \<and> cachedBlock t = cachedBlock this0
    \<and> unat (ReadLe32 (drop 8 bytes2)) = length (index1Entries this0)
    \<and> (ReadLe16 (drop 4 bytes2) = 1 \<longrightarrow> totalDumpLines t = 0)
    \<and> (ReadLe16 (drop 4 bytes2) \<noteq> 1 \<longrightarrow>
          (ReadLe16 (drop 4 bytes2) = 2 \<or> ReadLe16 (drop 4 bytes2) = 3)
          \<and> 16 \<le> length bytes2 \<and> totalDumpLines t = ReadLe32 (drop 12 bytes2))"
proof (cases "fs p2")
  case None
  then show ?thesis
    using assms
    by (simp add: Load_index2_def EnsureIndex2Open_def stream_open_def Let_def)
next
  case (Some bytes2)
  let ?s0 = "\<lparr>is_open = True, filedata = bytes2, gpos = 0, failed = False\<rparr>"
  let ?t1 = "this0\<lparr>index2Path := p2, index2OpenAttempted := True, index2Stream := ?s0\<rparr>"
  have e: "EnsureIndex2Open fs (this0\<lparr>index2Path := p2\<rparr>) = (Inr (), ?t1)"
    using assms(2,3) Some by (simp add: EnsureIndex2Open_def stream_open_def Let_def)
  have sk: "seekg ?s0 0 = ?s0" by (simp add: seekg_def)
  show ?thesis
  proof (cases "12 \<le> length bytes2")
    case False
    then show ?thesis
      using assms(1) by (simp add: Load_index2_def e sk ReadFully_def)
  next
    case len: True
    let ?s1 = "?s0\<lparr>gpos := 12\<rparr>"
    have r: "ReadFully ?s0 12 = (Some (take 12 bytes2), ?s1)"
      using len by (simp add: ReadFully_def)
    let ?t2 = "?t1\<lparr>index2Stream := ?s1\<rparr>"
    let ?v = "ReadLe16 (drop 4 bytes2)"
    let ?bc = "ReadLe32 (drop 8 bytes2)"
    have hv: "ReadLe16 (drop 4 (take 12 bytes2)) = ?v"
      and hb: "ReadLe32 (drop 8 (take 12 bytes2)) = ?bc"
      using len by (simp_all add: ReadLe16_take ReadLe32_take8)
    have vers: "?v = 1 \<or> ?v = 2 \<or> ?v = 3" and mg: "take 4 (take 12 bytes2) = kIndex2Magic"
      using assms(1)
      by (auto simp: Load_index2_def e sk r Let_def hv hb kVersion1_def kVersion2_def
          kVersion3_def split: if_splits)
    show ?thesis
    proof (cases "?v = 1")
      case True
      then have "Load_check_count ?bc ?t2 = (Inr u, t)"
        using assms(1) mg
        by (simp add: Load_index2_def e sk r Let_def hv hb kVersion1_def kVersion2_def
            kVersion3_def word_le_nat_alt)
      then show ?thesis
        using True Some len assms(4) by (auto dest!: Load_check_count_Inr)
    next
      case False
      then have v23: "?v = 2 \<or> ?v = 3" using vers by simp
      then have ge: "kVersion2 \<le> ?v" by (auto simp: kVersion2_def)
      show ?thesis
      proof (cases "16 \<le> length bytes2")
        case False
        then show ?thesis
          using assms(1) mg v23 len
          by (auto simp: Load_index2_def e sk Let_def hv hb kVersion1_def kVersion2_def
              kVersion3_def ReadFully_def)
      next
        case l16: True
        have "Load_check_count ?bc
                (?t2\<lparr>index2Stream := ?s1\<lparr>gpos := 16\<rparr>,
                      totalDumpLines := ReadLe32 (drop 12 bytes2)\<rparr>) = (Inr u, t)"
          using assms(1) mg v23 l16 len ReadLe32_take4 [of 12 bytes2]
          by (auto simp: Load_index2_def e sk Let_def hv hb kVersion1_def kVersion2_def
              kVersion3_def ReadFully_def)
        then show ?thesis
          using False v23 Some len l16 by (auto dest!: Load_check_count_Inr)
      qed
    qed
  qed
qed

lemma Load_table:
  assumes "index1_table fs p1 = Some es"
  shows "Load fs p1 p2 this =
     (if es = [] then (Inl ''index1 has no entries'', Load_reset this)
      else if \<not> sorted (map startRva es)
      then (Inl ''index1 entries are not sorted by startRva'', Load_reset this)
      else Load_index2 fs p2 ((Load_reset this)\<lparr>index1Entries := es\<rparr>))"
proof -
  have r: "(Load_reset this)\<lparr>index1Entries := []\<rparr> = Load_reset this"
    by (simp add: Load_reset_def)
  show ?thesis
    using assms r
    by (auto simp: index1_table_def Load_def Let_def is_sorted_less
        split: if_splits prod.splits option.splits)
qed

lemma Load_no_table:
  assumes "index1_table fs p1 = None"
  shows "\<exists>err. Load fs p1 p2 this = (Inl err, Load_reset this)"
proof -
  have r: "(Load_reset this)\<lparr>index1Entries := []\<rparr> = Load_reset this"
    by (simp add: Load_reset_def)
  show ?thesis
    using assms r
    by (auto simp: index1_table_def Load_def Let_def
        split: if_splits prod.splits option.splits)
qed

lemma index1_table_length:
  assumes "index1_table fs p1 = Some es"
  shows "length es < 2 ^ 32"
proof -
  obtain f ec f' where "read_entries f ec 0 [] = (Some es, f')"
    using assms
    by (auto simp: index1_table_def Let_def prod_eq_iff
        split: if_splits prod.splits option.splits)
  then have "length es = unat ec" by (rule read_entries_length) simp_all
  then show ?thesis using unsigned_less [of ec, where ?'a = nat] by simp
qed

lemma Load_Inl:
  assumes "Load fs p1 p2 this = (Inl err, t)"
  shows "index1Entries t = []"
proof (cases "index1_table fs p1")
  case None
  then show ?thesis
    using Load_no_table [OF None, of p2 this] assms by (auto simp: Load_reset_def)
next
  case (Some es)
  show ?thesis
    using assms unfolding Load_table [OF Some]
    by (auto simp: Load_reset_def split: if_splits dest: Load_index2_Inl)
qed

lemma Load_Inr:
  assumes "Load fs p1 p2 this = (Inr u, t)"
  shows "\<exists>es bytes2. index1_table fs p1 = Some es \<and> es \<noteq> [] \<and> sorted (map startRva es)
    \<and> index1Entries t = es \<and> fs p2 = Some bytes2 \<and> 12 \<le> length bytes2
    \<and> is_open (index2Stream t) \<and> filedata (index2Stream t) = bytes2
    \<and> cachedBlockIndex t = size_t_max
    \<and> unat (ReadLe32 (drop 8 bytes2)) = length es
    \<and> (ReadLe16 (drop 4 bytes2) = 1 \<longrightarrow> totalDumpLines t = 0)
    \<and> (ReadLe16 (drop 4 bytes2) \<noteq> 1 \<longrightarrow>
          (ReadLe16 (drop 4 bytes2) = 2 \<or> ReadLe16 (drop 4 bytes2) = 3)
          \<and> 16 \<le> length bytes2 \<and> totalDumpLines t = ReadLe32 (drop 12 bytes2))"
proof (cases "index1_table fs p1")
  case None
  then show ?thesis using Load_no_table [OF None, of p2 this] assms by auto
next
  case (Some es)
  let ?t0 = "(Load_reset this)\<lparr>index1Entries := es\<rparr>"
  have ne: "es \<noteq> []" and srt: "sorted (map startRva es)"
    and l2: "Load_index2 fs p2 ?t0 = (Inr u, t)"
    using assms unfolding Load_table [OF Some] by (auto split: if_splits)
  have pre: "\<not> is_open (index2Stream ?t0)" "\<not> index2OpenAttempted ?t0"
    "totalDumpLines ?t0 = 0"
    by (simp_all add: Load_reset_def stream_close_def)
  obtain bytes2 where b: "fs p2 = Some bytes2" "12 \<le> length bytes2"
    "is_open (index2Stream t)" "filedata (index2Stream t) = bytes2"
    "index1Entries t = index1Entries ?t0"
    "cachedBlockIndex t = cachedBlockIndex ?t0"
    "unat (ReadLe32 (drop 8 bytes2)) = length (index1Entries ?t0)"
    "ReadLe16 (drop 4 bytes2) = 1 \<longrightarrow> totalDumpLines t = 0"
    "ReadLe16 (drop 4 bytes2) \<noteq> 1 \<longrightarrow>
          (ReadLe16 (drop 4 bytes2) = 2 \<or> ReadLe16 (drop 4 bytes2) = 3)
          \<and> 16 \<le> length bytes2 \<and> totalDumpLines t = ReadLe32 (drop 12 bytes2)"
    using Load_index2_Inr [OF l2 pre] by blast
  have c: "cachedBlockIndex ?t0 = size_t_max" "index1Entries ?t0 = es"
    by (simp_all add: Load_reset_def)
  show ?thesis
    using Some ne srt b c by (intro exI [of _ es] exI [of _ bytes2]) simp
qed

lemma Load_loaded:
  assumes "Load fs p1 p2 this = (Inr u, t)"
  shows "loaded t"
proof -
  obtain es where e: "index1_table fs p1 = Some es" "es \<noteq> []" "sorted (map startRva es)"
    "index1Entries t = es" "is_open (index2Stream t)" "cachedBlockIndex t = size_t_max"
    using Load_Inr [OF assms] by blast
  have "length es < 2 ^ 32" using e(1) by (rule index1_table_length)
  then show ?thesis
    using e by (simp add: loaded_def cache_valid_def size_t_max_def)
qed

section \<open>Evaluation on the example files\<close>

text \<open>
  Unfolding these equations computes the functions of the model on concrete files; the
  last two turn a comparison of words into a comparison of numbers.
\<close>

lemmas model_defs = Load_def Load_reset_def Load_index2_def Load_check_count_def clear_table_def
  EnsureIndex2Open_def LoadDecodedBlock_def decode_buffer_def FindClosestLowerOrEqualLine_def
  floorInBlock_def upper_bound_def GetTotalDumpLines_def new_lookup_def
  ReadFully_def seekg_def stream_open_def stream_close_def stream_clear_def fresh_stream_def
  ReadLe16_def ReadLe32_def ReadLe64_def kIndex1Magic_def kIndex2Magic_def
  kVersion1_def kVersion2_def kVersion3_def size_t_max_def empty_block_def Let_def
  read_entries.simps decode_records.simps upper_bound_loop.simps
  word_le_nat_alt word_less_nat_alt

lemma ex_Load: "Load ex_fs ''index1.bin'' ''index2.bin'' new_lookup = (Inr (), ex_lookup)"
  by (simp add: model_defs ex_fs_def ex_index1_def ex_index2_def ex_block0_def ex_block1_def
      ex_lookup_def ex_entry0_def ex_entry1_def)

lemma skew_Load: "Load skew_fs ''index1.bin'' ''index2.bin'' new_lookup = (Inr (), skew_lookup)"
  by (simp add: model_defs skew_fs_def skew_index1_def skew_index2_def skew_lookup_def)

lemma gap_Load: "Load gap_fs ''index1.bin'' ''index2.bin'' new_lookup = (Inr (), gap_lookup)"
  by (simp add: model_defs gap_fs_def gap_index1_def gap_index2_def gap_lookup_def)

section \<open>Properties of decoding, caching and loading\<close>

lemma LoadDecodedBlock_Inl_cache:
  "fst (LoadDecodedBlock fs i outBlock this) = Inl err \<Longrightarrow>
   cachedBlockIndex (snd (LoadDecodedBlock fs i outBlock this)) = cachedBlockIndex this
   \<and> cachedBlock (snd (LoadDecodedBlock fs i outBlock this)) = cachedBlock this"
  by (auto simp: LoadDecodedBlock_def EnsureIndex2Open_def Let_def
      split: if_splits prod.splits option.splits sum.splits)

lemma null_find_unchanged:
  "FindClosestLowerOrEqualLine fs q Null this = (None, this)"
  by (simp add: FindClosestLowerOrEqualLine_def)

lemma lookups_keep_loaded:
  assumes "loaded this"
  shows "loaded (snd (FindClosestLowerOrEqualLine fs q outLine this))"
proof (cases outLine)
  case Null
  then show ?thesis using assms by (simp add: null_find_unchanged)
next
  case NonNull
  then show ?thesis using FindClosestLowerOrEqualLine_loaded [OF assms, of fs q] by simp
qed

lemma reachable_loaded:
  assumes "reachable this"
  shows "index1Entries this = [] \<or> loaded this"
  using assms
proof (induction rule: reachable.induct)
  case constructed
  then show ?case by (simp add: new_lookup_def)
next
  case (after_Load this fs index1Path index2Path0)
  obtain r t where l: "Load fs index1Path index2Path0 this = (r, t)"
    by (cases "Load fs index1Path index2Path0 this")
  show ?case
  proof (cases r)
    case (Inl err)
    then show ?thesis using Load_Inl [of fs index1Path index2Path0 this err t] l by simp
  next
    case (Inr u)
    then show ?thesis using Load_loaded [of fs index1Path index2Path0 this u t] l by simp
  qed
next
  case (after_Find this fs queryRva outLine)
  then show ?case
  proof (elim disjE)
    assume "index1Entries this = []"
    then show ?thesis by (simp add: FindClosestLowerOrEqualLine_def)
  next
    assume "loaded this"
    then show ?thesis using lookups_keep_loaded by blast
  qed
qed

lemma ex_loaded: "loaded ex_lookup"
  by (simp add: loaded_def cache_valid_def ex_lookup_def ex_entry0_def ex_entry1_def
      size_t_max_def)

lemma block_of_Inr:
  assumes "block_of this i = Inr b"
  shows "\<exists>buf. block_bytes (filedata (index2Stream this)) (index1Entries this ! i) = Some buf
    \<and> b = decoded_records buf
    \<and> 16 + 8 * unat (block_recordCount buf) = unat (index2Size (index1Entries this ! i))
    \<and> sorted (rvas b)
    \<and> length (rvas b) = unat (block_recordCount buf)
    \<and> length (lines b) = unat (block_recordCount buf)"
  using assms decoded_records_length
  by (auto simp: block_of_def decode_entry_def decode_buffer_eq
      split: if_splits option.splits)

text \<open>
  C9. A null output pointer makes \<^verbatim>\<open>FindClosestLowerOrEqualLine\<close> return false at
  once: no value is stored, and the object (table, stream, cache slot) is left as it was,
  whatever the query and the state.
\<close>

theorem null_outLine_returns_false:
  "FindClosestLowerOrEqualLine fs queryRva Null this = (None, this)"
  by (simp add: FindClosestLowerOrEqualLine_def)

theorem null_outLine_returns_false_witness:
  "FindClosestLowerOrEqualLine ex_fs 70 Null ex_lookup = (None, ex_lookup)"
  by (rule null_outLine_returns_false)

lemma decoded_records_spec:
  "decoded_records buf =
     \<lparr>rvas = map (spec_record_address buf) [0..<unat (block_recordCount buf)],
      lines = map (spec_record_value buf) [0..<unat (block_recordCount buf)]\<rparr>"
proof -
  let ?D = "decoded_records buf"
  let ?rc = "unat (block_recordCount buf)"
  have len: "length (rvas ?D) = ?rc" "length (lines ?D) = ?rc"
    using decoded_records_length [of buf] by simp_all
  have nth: "rvas ?D ! j =
            (if j = 0 then block_startKey buf + ucast (addressDelta buf 0)
             else rvas ?D ! (j - 1) + ucast (addressDelta buf j))
          \<and> lines ?D ! j =
            (if j = 0 then (if rawValue buf 0 = 0 then block_startValue buf else rawValue buf 0)
             else rawValue buf j)" if "j < ?rc" for j
    unfolding decoded_records_def
    by (rule decode_records_nth) (use that in \<open>simp_all add: empty_block_def\<close>)
  have ra: "j < ?rc \<Longrightarrow> rvas ?D ! j = spec_record_address buf j" for j
  proof (induction j)
    case 0
    then show ?case using nth [of 0] by simp
  next
    case (Suc j)
    then have "rvas ?D ! j = spec_record_address buf j" by simp
    then show ?case using nth [of "Suc j"] Suc.prems by simp
  qed
  have rv: "j < ?rc \<Longrightarrow> lines ?D ! j = spec_record_value buf j" for j
    using nth [of j] by (simp add: spec_record_value_def)
  have r: "rvas ?D = map (spec_record_address buf) [0..<?rc]"
    by (rule nth_equalityI) (simp_all add: len ra)
  have l: "lines ?D = map (spec_record_value buf) [0..<?rc]"
    by (rule nth_equalityI) (simp_all add: len rv)
  show ?thesis using r l by (cases ?D) simp
qed

lemma wrap_Load: "Load wrap_fs ''index1.bin'' ''index2.bin'' new_lookup = (Inr (), wrap_lookup)"
  by (simp add: model_defs wrap_fs_def wrap_index1_def wrap_index2_def wrap_block_def
      wrap_lookup_def)

text \<open>
  C4, as the code has it. On a loaded object, for a routing entry whose block is read in
  full and whose size is 16 plus 8 bytes per announced record, \<^verbatim>\<open>LoadDecodedBlock\<close>
  computes one address and one value per record by the decoding rule (record 0: start key
  plus address delta, raw value or the start value when the raw value is 0; record
  \<open>i > 0\<close>: address of record \<open>i - 1\<close> plus its own address delta, raw value as it is;
  additions in 64-bit unsigned arithmetic). It returns exactly these records when the
  addresses so computed are in non-decreasing order, and it fails with the message of the
  order check, returning no record, when they are not.
\<close>

theorem LoadDecodedBlock_decoding_rule:
  assumes "loaded this" and "i < length (index1Entries this)"
    and "block_bytes (filedata (index2Stream this)) (index1Entries this ! i) = Some buf"
    and "16 + 8 * unat (block_recordCount buf) = unat (index2Size (index1Entries this ! i))"
  shows "fst (LoadDecodedBlock fs i NonNull this) =
     (if sorted (map (spec_record_address buf) [0..<unat (block_recordCount buf)])
      then Inr \<lparr>rvas = map (spec_record_address buf) [0..<unat (block_recordCount buf)],
                lines = map (spec_record_value buf) [0..<unat (block_recordCount buf)]\<rparr>
      else Inl ''Corrupt block: RVAs are not sorted'')"
proof -
  let ?e = "index1Entries this ! i"
  have "16 \<le> unat (index2Size ?e)" using assms(4) by arith
  then have big: "\<not> index2Size ?e < 16" by (simp add: word_less_nat_alt)
  have "fst (LoadDecodedBlock fs i NonNull this) = block_of this i"
    using LoadDecodedBlock_loaded [OF assms(1,2), of fs] by simp
  also have "\<dots> = decode_buffer ?e buf"
    using big assms(3) by (simp add: block_of_def decode_entry_def)
  also have "\<dots> = (if \<not> sorted (rvas (decoded_records buf))
      then Inl ''Corrupt block: RVAs are not sorted''
      else Inr (decoded_records buf))"
    using assms(4) by (simp add: decode_buffer_eq)
  also have "\<dots> =
     (if sorted (map (spec_record_address buf) [0..<unat (block_recordCount buf)])
      then Inr \<lparr>rvas = map (spec_record_address buf) [0..<unat (block_recordCount buf)],
                lines = map (spec_record_value buf) [0..<unat (block_recordCount buf)]\<rparr>
      else Inl ''Corrupt block: RVAs are not sorted'')"
    by (simp add: decoded_records_spec)
  finally show ?thesis .
qed

theorem LoadDecodedBlock_decoding_rule_witness:
  "loaded ex_lookup \<and> 0 < length (index1Entries ex_lookup)
   \<and> block_bytes (filedata (index2Stream ex_lookup)) (index1Entries ex_lookup ! 0)
       = Some ex_block0
   \<and> 16 + 8 * unat (block_recordCount ex_block0)
       = unat (index2Size (index1Entries ex_lookup ! 0))
   \<and> map (spec_record_address ex_block0) [0..<unat (block_recordCount ex_block0)] = [16, 32]
   \<and> map (spec_record_value ex_block0) [0..<unat (block_recordCount ex_block0)] = [5, 7]
   \<and> fst (LoadDecodedBlock ex_fs 0 NonNull ex_lookup) = Inr \<lparr>rvas = [16, 32], lines = [5, 7]\<rparr>"
proof -
  have h: "0 < length (index1Entries ex_lookup)" by (simp add: ex_lookup_def)
  have bb: "block_bytes (filedata (index2Stream ex_lookup)) (index1Entries ex_lookup ! 0)
       = Some ex_block0"
    by (simp add: block_bytes_def ex_lookup_def ex_entry0_def ex_index2_def ex_block0_def)
  have rc: "unat (block_recordCount ex_block0) = 2"
    by (simp add: block_recordCount_def ex_block0_def ReadLe32_def)
  have sz: "16 + 8 * unat (block_recordCount ex_block0)
       = unat (index2Size (index1Entries ex_lookup ! 0))"
    by (simp add: rc ex_lookup_def ex_entry0_def)
  have v: "block_startKey ex_block0 = 16" "block_startValue ex_block0 = 5"
    "addressDelta ex_block0 0 = 0" "rawValue ex_block0 0 = 0"
    "addressDelta ex_block0 (Suc 0) = 16" "rawValue ex_block0 (Suc 0) = 7"
    by (simp_all add: ex_block0_def block_startKey_def block_startValue_def addressDelta_def
        rawValue_def ReadLe32_def ReadLe64_def)
  have up: "[0..<2] = [0, Suc 0]" by (simp add: upt_rec)
  have a: "map (spec_record_address ex_block0) [0..<unat (block_recordCount ex_block0)]
      = [16, 32]"
    by (simp add: rc up v)
  have l: "map (spec_record_value ex_block0) [0..<unat (block_recordCount ex_block0)] = [5, 7]"
    by (simp add: rc up v spec_record_value_def)
  have "fst (LoadDecodedBlock ex_fs 0 NonNull ex_lookup) = Inr \<lparr>rvas = [16, 32], lines = [5, 7]\<rparr>"
    using LoadDecodedBlock_decoding_rule [OF ex_loaded h bb sz, of ex_fs] by (simp add: a l)
  then show ?thesis using ex_loaded h bb sz a l by simp
qed

text \<open>
  The files \<open>wrap_index1\<close> and \<open>wrap_index2\<close> load, and the block of the one routing
  entry is structurally valid: its size 32 is 16 plus 8 bytes for each of its 2 records.
  The second address wraps around to 0, below the first one, and
  \<^verbatim>\<open>LoadDecodedBlock\<close> returns no record but the error of the order check.
\<close>

theorem valid_block_rejected_by_order_check:
  "Load wrap_fs ''index1.bin'' ''index2.bin'' new_lookup = (Inr (), wrap_lookup)
   \<and> block_bytes (filedata (index2Stream wrap_lookup)) (index1Entries wrap_lookup ! 0)
       = Some wrap_block
   \<and> 16 \<le> unat (index2Size (index1Entries wrap_lookup ! 0))
   \<and> 16 + 8 * unat (block_recordCount wrap_block)
       = unat (index2Size (index1Entries wrap_lookup ! 0))
   \<and> map (spec_record_address wrap_block) [0..<unat (block_recordCount wrap_block)]
       = [18446744073709551615, 0]
   \<and> fst (LoadDecodedBlock wrap_fs 0 NonNull wrap_lookup)
       = Inl ''Corrupt block: RVAs are not sorted''"
proof -
  have bb: "block_bytes (filedata (index2Stream wrap_lookup)) (index1Entries wrap_lookup ! 0)
       = Some wrap_block"
    by (simp add: block_bytes_def wrap_lookup_def wrap_index2_def wrap_block_def)
  have rc: "unat (block_recordCount wrap_block) = 2"
    by (simp add: block_recordCount_def wrap_block_def ReadLe32_def)
  have sz: "unat (index2Size (index1Entries wrap_lookup ! 0)) = 32"
    by (simp add: wrap_lookup_def)
  have v: "block_startKey wrap_block = 18446744073709551615"
    "addressDelta wrap_block 0 = 0" "addressDelta wrap_block (Suc 0) = 1"
    by (simp_all add: wrap_block_def block_startKey_def addressDelta_def
        ReadLe32_def ReadLe64_def)
  have up: "[0..<2] = [0, Suc 0]" by (simp add: upt_rec)
  have a: "map (spec_record_address wrap_block) [0..<unat (block_recordCount wrap_block)]
       = [18446744073709551615, 0]"
    by (simp add: rc up v)
  have f: "fst (LoadDecodedBlock wrap_fs 0 NonNull wrap_lookup)
       = Inl ''Corrupt block: RVAs are not sorted''"
    by (simp add: model_defs wrap_lookup_def wrap_index2_def wrap_block_def)
  show ?thesis using wrap_Load bb rc sz a f by simp
qed

text \<open>
  C10. On a loaded object, every block that \<^verbatim>\<open>LoadDecodedBlock\<close> hands out, decoded
  or taken from the cache slot, has as many addresses as values, namely the record count
  of the block, and its addresses are in non-decreasing order; so the position that the
  binary search of the lookup finds in the addresses is a position of the values.
\<close>

theorem LoadDecodedBlock_block_shape:
  assumes "loaded this" and "LoadDecodedBlock fs i NonNull this = (Inr b, t)"
  shows "\<exists>buf. block_bytes (filedata (index2Stream this)) (index1Entries this ! i) = Some buf
    \<and> length (rvas b) = unat (block_recordCount buf)
    \<and> length (lines b) = unat (block_recordCount buf)
    \<and> length (rvas b) = length (lines b)
    \<and> sorted (rvas b)
    \<and> (\<forall>q. upper_bound (<) (rvas b) q \<noteq> 0
            \<longrightarrow> upper_bound (<) (rvas b) q - 1 < length (lines b))"
proof -
  have i: "i < length (index1Entries this)"
    using assms(2) by (auto simp: LoadDecodedBlock_def split: if_splits)
  have "block_of this i = Inr b"
    using LoadDecodedBlock_loaded [OF assms(1) i, of fs] assms(2) by simp
  then obtain buf where
    buf: "block_bytes (filedata (index2Stream this)) (index1Entries this ! i) = Some buf"
      "sorted (rvas b)" "length (rvas b) = unat (block_recordCount buf)"
      "length (lines b) = unat (block_recordCount buf)"
    using block_of_Inr by blast
  have "\<forall>q. upper_bound (<) (rvas b) q \<noteq> 0
            \<longrightarrow> upper_bound (<) (rvas b) q - 1 < length (lines b)"
  proof (intro allI impI)
    fix q assume "upper_bound (<) (rvas b) q \<noteq> 0"
    moreover have "upper_bound (<) (rvas b) q \<le> length (rvas b)"
      using upper_bound_sorted_id [OF buf(2), of q] by simp
    ultimately show "upper_bound (<) (rvas b) q - 1 < length (lines b)"
      using buf(3,4) by arith
  qed
  then show ?thesis using buf by auto
qed

theorem LoadDecodedBlock_block_shape_witness:
  "loaded ex_lookup
   \<and> fst (LoadDecodedBlock ex_fs 0 NonNull ex_lookup) = Inr \<lparr>rvas = [16, 32], lines = [5, 7]\<rparr>
   \<and> (\<exists>buf. block_bytes (filedata (index2Stream ex_lookup)) (index1Entries ex_lookup ! 0)
          = Some buf
        \<and> length [16, 32 :: uint64] = unat (block_recordCount buf)
        \<and> length [5, 7 :: uint32] = unat (block_recordCount buf))"
proof -
  obtain t where l: "LoadDecodedBlock ex_fs 0 NonNull ex_lookup
      = (Inr \<lparr>rvas = [16, 32], lines = [5, 7]\<rparr>, t)"
    by (simp add: model_defs ex_lookup_def ex_entry0_def ex_entry1_def ex_index2_def
        ex_block0_def ex_block1_def)
  show ?thesis
    using LoadDecodedBlock_block_shape [OF ex_loaded l] ex_loaded l by auto
qed

text \<open>
  C8. On a loaded object the result of a lookup does not depend on the cache slot: the
  call on the object with the slot emptied returns what the call on the object itself
  returns; the same holds for each single block load; and a second identical call, on
  the state the first one leaves, returns the same result.
\<close>

theorem cache_transparent:
  assumes "loaded this"
  shows "fst (FindClosestLowerOrEqualLine fs q outLine (cold this))
           = fst (FindClosestLowerOrEqualLine fs q outLine this)
    \<and> fst (LoadDecodedBlock fs i NonNull (cold this)) = fst (LoadDecodedBlock fs i NonNull this)
    \<and> fst (FindClosestLowerOrEqualLine fs q outLine
              (snd (FindClosestLowerOrEqualLine fs q outLine this)))
           = fst (FindClosestLowerOrEqualLine fs q outLine this)"
proof -
  have lc: "loaded (cold this)"
    using assms by (simp add: loaded_def cold_def cache_valid_def size_t_max_def)
  have es: "index1Entries (cold this) = index1Entries this"
    and fd: "filedata (index2Stream (cold this)) = filedata (index2Stream this)"
    by (simp_all add: cold_def)
  have bo: "block_of (cold this) = block_of this"
    by (rule block_of_cong) (simp_all add: cold_def)
  have blk: "fst (LoadDecodedBlock fs i NonNull (cold this))
      = fst (LoadDecodedBlock fs i NonNull this)"
  proof (cases "i < length (index1Entries this)")
    case True
    then show ?thesis
      using LoadDecodedBlock_loaded [OF lc, of i fs] LoadDecodedBlock_loaded [OF assms, of i fs]
        bo es by simp
  next
    case False
    then show ?thesis by (simp add: LoadDecodedBlock_def cold_def)
  qed
  show ?thesis
  proof (cases outLine)
    case Null
    then show ?thesis using blk by (simp add: null_find_unchanged)
  next
    case NonNull
    let ?t = "snd (FindClosestLowerOrEqualLine fs q NonNull this)"
    note a = FindClosestLowerOrEqualLine_loaded [OF assms, of fs q]
    note c = FindClosestLowerOrEqualLine_loaded [OF lc, of fs q]
    have lt: "loaded ?t" and et: "index1Entries ?t = index1Entries this"
      using a by simp_all
    have bt: "block_of ?t = block_of this"
      by (rule block_of_cong) (use a in simp_all)
    note d = FindClosestLowerOrEqualLine_loaded [OF lt, of fs q]
    show ?thesis
      unfolding NonNull using a c d blk bo es et bt by simp
  qed
qed

text \<open>
  The query 20 asked twice on the example files: the first call leaves block 0 in the
  cache slot, the second one is served from it (it leaves the object, the position of the
  stream included, as it was), and the same call with the slot emptied reads the block
  again and returns the same value.
\<close>

theorem cache_transparent_witness:
  "loaded (snd (FindClosestLowerOrEqualLine ex_fs 20 NonNull ex_lookup))
   \<and> cachedBlockIndex (snd (FindClosestLowerOrEqualLine ex_fs 20 NonNull ex_lookup)) = 0
   \<and> cachedBlock (snd (FindClosestLowerOrEqualLine ex_fs 20 NonNull ex_lookup))
       = \<lparr>rvas = [16, 32], lines = [5, 7]\<rparr>
   \<and> FindClosestLowerOrEqualLine ex_fs 20 NonNull
         (snd (FindClosestLowerOrEqualLine ex_fs 20 NonNull ex_lookup))
       = (Some 5, snd (FindClosestLowerOrEqualLine ex_fs 20 NonNull ex_lookup))
   \<and> cachedBlockIndex (cold (snd (FindClosestLowerOrEqualLine ex_fs 20 NonNull ex_lookup)))
       = size_t_max
   \<and> fst (FindClosestLowerOrEqualLine ex_fs 20 NonNull
            (cold (snd (FindClosestLowerOrEqualLine ex_fs 20 NonNull ex_lookup)))) = Some 5
   \<and> gpos (index2Stream (snd (FindClosestLowerOrEqualLine ex_fs 20 NonNull
            (cold (snd (FindClosestLowerOrEqualLine ex_fs 20 NonNull ex_lookup)))))) = 48
   \<and> fst (LoadDecodedBlock ex_fs 0 NonNull
            (snd (FindClosestLowerOrEqualLine ex_fs 20 NonNull ex_lookup)))
       = fst (LoadDecodedBlock ex_fs 0 NonNull
            (cold (snd (FindClosestLowerOrEqualLine ex_fs 20 NonNull ex_lookup))))"
proof -
  define warm where "warm = snd (FindClosestLowerOrEqualLine ex_fs 20 NonNull ex_lookup)"
  have wv: "warm = ex_lookup\<lparr>index2Stream :=
                \<lparr>is_open = True, filedata = ex_index2, gpos = 48, failed = False\<rparr>,
              cachedBlockIndex := 0,
              cachedBlock := \<lparr>rvas = [16, 32], lines = [5, 7]\<rparr>\<rparr>"
    unfolding warm_def
    by (simp add: model_defs ex_lookup_def ex_entry0_def ex_entry1_def ex_index2_def
        ex_block0_def ex_block1_def)
  have w: "loaded warm"
    unfolding warm_def using FindClosestLowerOrEqualLine_loaded [OF ex_loaded, of ex_fs 20]
    by simp
  have ci: "cachedBlockIndex warm = 0"
    and cb: "cachedBlock warm = \<lparr>rvas = [16, 32], lines = [5, 7]\<rparr>"
    by (simp_all add: wv)
  have hit: "FindClosestLowerOrEqualLine ex_fs 20 NonNull warm = (Some 5, warm)"
    unfolding wv
    by (simp add: model_defs ex_lookup_def ex_entry0_def ex_entry1_def ex_index2_def
        ex_block0_def ex_block1_def)
  have cc: "cachedBlockIndex (cold warm) = size_t_max" by (simp add: cold_def)
  note t = cache_transparent [OF w, of ex_fs 20 NonNull 0]
  have cv: "fst (FindClosestLowerOrEqualLine ex_fs 20 NonNull (cold warm)) = Some 5"
    using t hit by simp
  have gp: "gpos (index2Stream (snd (FindClosestLowerOrEqualLine ex_fs 20 NonNull (cold warm))))
      = 48"
    unfolding wv
    by (simp add: cold_def model_defs ex_lookup_def ex_entry0_def ex_entry1_def ex_index2_def
        ex_block0_def ex_block1_def)
  have lb: "fst (LoadDecodedBlock ex_fs 0 NonNull warm)
      = fst (LoadDecodedBlock ex_fs 0 NonNull (cold warm))"
    using t by simp
  show ?thesis
    using w ci cb hit cc cv gp lb unfolding warm_def by simp
qed

lemma unsorted_table:
  "index1_table unsorted_fs ''index1.bin''
     = Some [\<lparr>startRva = 50, index2Offset = 12, index2Size = 24\<rparr>,
             \<lparr>startRva = 0, index2Offset = 36, index2Size = 24\<rparr>]"
  by (simp add: index1_table_def model_defs unsorted_fs_def unsorted_index1_def)

lemma find_totalDumpLines:
  assumes "loaded this"
  shows "fst (FindClosestLowerOrEqualLine fs q outLine (this\<lparr>totalDumpLines := x\<rparr>))
           = fst (FindClosestLowerOrEqualLine fs q outLine this)"
proof (cases outLine)
  case Null
  then show ?thesis by (simp add: null_find_unchanged)
next
  case NonNull
  have l: "loaded (this\<lparr>totalDumpLines := x\<rparr>)"
    using assms by (simp add: loaded_def cache_valid_def block_of_def)
  have b: "block_of (this\<lparr>totalDumpLines := x\<rparr>) = block_of this"
    by (rule block_of_cong) simp_all
  show ?thesis
    unfolding NonNull
    using FindClosestLowerOrEqualLine_loaded [OF l, of fs q]
      FindClosestLowerOrEqualLine_loaded [OF assms, of fs q] b
    by simp
qed

text \<open>
  C6. When \<^verbatim>\<open>Load\<close> has parsed the routing table of the first file, it fails if
  the table is empty, it fails if some later entry has a smaller start key than an
  earlier one, and for a non-empty table in ascending order of start keys it goes on to
  the second file with that table.
\<close>

theorem Load_rejects_empty_or_unsorted:
  assumes "index1_table fs index1Path = Some es"
  shows "(es = [] \<longrightarrow>
            Load fs index1Path index2Path0 this
              = (Inl ''index1 has no entries'', Load_reset this))
    \<and> ((\<exists>i j. i < j \<and> j < length es \<and> startRva (es ! j) < startRva (es ! i)) \<longrightarrow>
            Load fs index1Path index2Path0 this
              = (Inl ''index1 entries are not sorted by startRva'', Load_reset this))
    \<and> (es \<noteq> [] \<and> sorted (map startRva es) \<longrightarrow>
            Load fs index1Path index2Path0 this
              = Load_index2 fs index2Path0 ((Load_reset this)\<lparr>index1Entries := es\<rparr>))"
proof -
  have "\<not> sorted (map startRva es)"
    if "\<exists>i j. i < j \<and> j < length es \<and> startRva (es ! j) < startRva (es ! i)"
  proof
    assume s: "sorted (map startRva es)"
    from that obtain i j where ij: "i < j" "j < length es" "startRva (es ! j) < startRva (es ! i)"
      by blast
    have "map startRva es ! i \<le> map startRva es ! j"
      using s ij by (simp add: sorted_iff_nth_mono)
    then show False using ij by simp
  qed
  moreover have "es \<noteq> []"
    if "\<exists>i j. i < j \<and> j < length es \<and> startRva (es ! j) < startRva (es ! i)"
    using that by auto
  ultimately show ?thesis
    unfolding Load_table [OF assms] by auto
qed

theorem Load_rejects_empty_or_unsorted_witness:
  "index1_table unsorted_fs ''index1.bin''
     = Some [\<lparr>startRva = 50, index2Offset = 12, index2Size = 24\<rparr>,
             \<lparr>startRva = 0, index2Offset = 36, index2Size = 24\<rparr>]
   \<and> Load unsorted_fs ''index1.bin'' ''index2.bin'' new_lookup
       = (Inl ''index1 entries are not sorted by startRva'', Load_reset new_lookup)
   \<and> index1_table ex_fs ''index1.bin'' = Some [ex_entry0, ex_entry1]
   \<and> Load ex_fs ''index1.bin'' ''index2.bin'' new_lookup
       = Load_index2 ex_fs ''index2.bin''
           ((Load_reset new_lookup)\<lparr>index1Entries := [ex_entry0, ex_entry1]\<rparr>)"
proof -
  let ?es = "[\<lparr>startRva = 50, index2Offset = 12, index2Size = 24\<rparr>,
             \<lparr>startRva = 0, index2Offset = 36, index2Size = 24\<rparr>]"
  have inv: "\<exists>i j. i < j \<and> j < length ?es \<and> startRva (?es ! j) < startRva (?es ! i)"
    by (rule exI [of _ 0], rule exI [of _ 1]) simp
  have t: "index1_table ex_fs ''index1.bin'' = Some [ex_entry0, ex_entry1]"
    by (simp add: index1_table_def model_defs ex_fs_def ex_index1_def ex_entry0_def
        ex_entry1_def)
  have s: "[ex_entry0, ex_entry1] \<noteq> [] \<and> sorted (map startRva [ex_entry0, ex_entry1])"
    by (simp add: ex_entry0_def ex_entry1_def)
  show ?thesis
    using Load_rejects_empty_or_unsorted [OF unsorted_table, of "''index2.bin''" new_lookup]
      Load_rejects_empty_or_unsorted [OF t, of "''index2.bin''" new_lookup]
      inv s unsorted_table t
    by blast
qed

text \<open>
  C7. After a successful \<^verbatim>\<open>Load\<close>, \<^verbatim>\<open>GetTotalDumpLines\<close> returns 0 when the
  header of the second file has version 1, and the 32-bit field that follows the 12-byte
  header when it has version 2 or 3; and no lookup depends on that number: with any
  other number stored in its place the lookup returns the same result.
\<close>

theorem total_count_by_version:
  assumes "Load fs index1Path index2Path0 this = (Inr u, t)"
    and "fs index2Path0 = Some bytes2"
  shows "(ReadLe16 (drop 4 bytes2) = 1 \<longrightarrow> GetTotalDumpLines t = 0)
    \<and> (ReadLe16 (drop 4 bytes2) = 2 \<or> ReadLe16 (drop 4 bytes2) = 3 \<longrightarrow>
          GetTotalDumpLines t = ReadLe32 (drop 12 bytes2))
    \<and> (ReadLe16 (drop 4 bytes2) = 1 \<or> ReadLe16 (drop 4 bytes2) = 2
          \<or> ReadLe16 (drop 4 bytes2) = 3)
    \<and> fst (FindClosestLowerOrEqualLine fs' q outLine (t\<lparr>totalDumpLines := x\<rparr>))
         = fst (FindClosestLowerOrEqualLine fs' q outLine t)"
proof -
  have l: "loaded t" using assms(1) by (rule Load_loaded)
  have "(ReadLe16 (drop 4 bytes2) = 1 \<longrightarrow> totalDumpLines t = 0)
    \<and> (ReadLe16 (drop 4 bytes2) \<noteq> 1 \<longrightarrow>
          (ReadLe16 (drop 4 bytes2) = 2 \<or> ReadLe16 (drop 4 bytes2) = 3)
          \<and> totalDumpLines t = ReadLe32 (drop 12 bytes2))"
    using Load_Inr [OF assms(1)] assms(2) by auto
  then show ?thesis
    using find_totalDumpLines [OF l, of fs' q outLine x]
    by (auto simp: GetTotalDumpLines_def)
qed

theorem total_count_by_version_witness:
  "Load ex_fs ''index1.bin'' ''index2.bin'' new_lookup = (Inr (), ex_lookup)
   \<and> ex_fs ''index2.bin'' = Some ex_index2
   \<and> ReadLe16 (drop 4 ex_index2) = 2
   \<and> GetTotalDumpLines ex_lookup = 12345
   \<and> Load skew_fs ''index1.bin'' ''index2.bin'' new_lookup = (Inr (), skew_lookup)
   \<and> skew_fs ''index2.bin'' = Some skew_index2
   \<and> ReadLe16 (drop 4 skew_index2) = 1
   \<and> GetTotalDumpLines skew_lookup = 0"
proof -
  have f: "ex_fs ''index2.bin'' = Some ex_index2" by (simp add: ex_fs_def)
  have v: "ReadLe16 (drop 4 ex_index2) = 2" "ReadLe32 (drop 12 ex_index2) = 12345"
    by (simp_all add: ex_index2_def ReadLe16_def ReadLe32_def)
  have g: "skew_fs ''index2.bin'' = Some skew_index2" by (simp add: skew_fs_def)
  have w: "ReadLe16 (drop 4 skew_index2) = 1"
    by (simp add: skew_index2_def ReadLe16_def)
  show ?thesis
    using total_count_by_version [OF ex_Load f, of ex_fs 0 NonNull 0]
      total_count_by_version [OF skew_Load g, of skew_fs 0 NonNull 0]
      ex_Load skew_Load f g v w
    by simp
qed

lemma EnsureIndex2Open_total:
  "totalDumpLines (snd (EnsureIndex2Open fs this)) = totalDumpLines this"
  by (simp add: EnsureIndex2Open_def Let_def)

lemma Load_index2_Inl_total:
  assumes "Load_index2 fs p2 this0 = (Inl err, t)"
  shows "totalDumpLines t = totalDumpLines this0
    \<or> err = ''index1 entry count does not match index2 block count''"
proof -
  obtain r1 t1 where e: "EnsureIndex2Open fs (this0\<lparr>index2Path := p2\<rparr>) = (r1, t1)"
    by (cases "EnsureIndex2Open fs (this0\<lparr>index2Path := p2\<rparr>)")
  have t1: "totalDumpLines t1 = totalDumpLines this0"
    using EnsureIndex2Open_total [of fs "this0\<lparr>index2Path := p2\<rparr>"] e by simp
  obtain a s where r: "ReadFully (seekg (index2Stream t1) 0) 12 = (a, s)"
    by (cases "ReadFully (seekg (index2Stream t1) 0) 12")
  obtain a' s' where r': "ReadFully s 4 = (a', s')" by (cases "ReadFully s 4")
  have cc: "\<And>bc x. Load_check_count bc x = (Inl err, t) \<Longrightarrow>
      err = ''index1 entry count does not match index2 block count''"
    by (auto simp: Load_check_count_def split: if_splits)
  show ?thesis
  proof (cases r1)
    case (Inl e1)
    then show ?thesis
      using assms t1 by (auto simp: Load_index2_def e clear_table_def)
  next
    case (Inr u)
    show ?thesis
    proof (cases a)
      case None
      then show ?thesis
        using assms t1 Inr by (auto simp: Load_index2_def e r clear_table_def)
    next
      case (Some hdr)
      show ?thesis
        using assms t1 Inr Some r'
        by (auto simp: Load_index2_def e r clear_table_def Let_def
            split: if_splits option.splits dest: cc)
    qed
  qed
qed

lemma failed_Load_state:
  assumes "Load fs p1 p2 this = (Inl err, t)"
  shows "index1Entries t = []
    \<and> FindClosestLowerOrEqualLine fs' q outLine t = (None, t)
    \<and> (totalDumpLines t = 0
        \<or> err = ''index1 entry count does not match index2 block count'')"
proof -
  have e: "index1Entries t = []" using assms by (rule Load_Inl)
  have f: "FindClosestLowerOrEqualLine fs' q outLine t = (None, t)"
    using e by (simp add: FindClosestLowerOrEqualLine_def)
  have g: "totalDumpLines t = 0
        \<or> err = ''index1 entry count does not match index2 block count''"
  proof (cases "index1_table fs p1")
    case None
    then show ?thesis
      using Load_no_table [OF None, of p2 this] assms by (auto simp: Load_reset_def)
  next
    case (Some es)
    show ?thesis
    proof (cases "es \<noteq> [] \<and> sorted (map startRva es)")
      case False
      then show ?thesis
        using assms unfolding Load_table [OF Some]
        by (auto simp: Load_reset_def split: if_splits)
    next
      case True
      then have "Load_index2 fs p2 ((Load_reset this)\<lparr>index1Entries := es\<rparr>) = (Inl err, t)"
        using assms unfolding Load_table [OF Some] by simp
      then show ?thesis
        using Load_index2_Inl_total [of fs p2 "(Load_reset this)\<lparr>index1Entries := es\<rparr>" err t]
        by (simp add: Load_reset_def)
    qed
  qed
  show ?thesis using e f g by simp
qed

text \<open>
  C3. \<^verbatim>\<open>Load\<close> on a first file with one routing entry and a version 2 second file
  that announces two blocks and 7 values: the call fails on the block count, the routing
  table is empty afterwards and a lookup finds nothing, but \<^verbatim>\<open>GetTotalDumpLines\<close>
  returns the 7 read from the rejected file.
\<close>

theorem failed_Load_keeps_total_count:
  "fst (Load short_fs ''index1.bin'' ''index2.bin'' new_lookup)
     = Inl ''index1 entry count does not match index2 block count''
   \<and> index1Entries (snd (Load short_fs ''index1.bin'' ''index2.bin'' new_lookup)) = []
   \<and> fst (FindClosestLowerOrEqualLine short_fs 0 NonNull
            (snd (Load short_fs ''index1.bin'' ''index2.bin'' new_lookup))) = None
   \<and> GetTotalDumpLines (snd (Load short_fs ''index1.bin'' ''index2.bin'' new_lookup)) = 7"
  by (simp add: model_defs short_fs_def short_index1_def short_index2_def)

lemma routes_to_upper_bound:
  assumes "sorted (map startRva es)" and "b < length es" and "startRva (es ! b) \<le> q"
    and "\<forall>j. b < j \<and> j < length es \<longrightarrow> q < startRva (es ! j)"
  shows "upper_bound (\<lambda>val entry. val < startRva entry) es q = b + 1"
proof -
  let ?n = "upper_bound (\<lambda>val entry. val < startRva entry) es q"
  note ub = upper_bound_sorted [OF assms(1), of q]
  have le: "?n \<le> length es" using ub by simp
  have low: "\<And>j. j < ?n \<Longrightarrow> startRva (es ! j) \<le> q" using ub by blast
  have high: "\<And>j. ?n \<le> j \<Longrightarrow> j < length es \<Longrightarrow> q < startRva (es ! j)" using ub by blast
  have "b < ?n"
  proof (rule ccontr)
    assume "\<not> b < ?n"
    then have "q < startRva (es ! b)" using high [of b] assms(2) by simp
    then show False using assms(3) by simp
  qed
  moreover have "?n \<le> b + 1"
  proof (rule ccontr)
    assume "\<not> ?n \<le> b + 1"
    then have j: "b + 1 < ?n" by simp
    then have "startRva (es ! (b + 1)) \<le> q" by (rule low)
    moreover have "q < startRva (es ! (b + 1))" using assms(4) j le by simp
    ultimately show False by simp
  qed
  ultimately show ?thesis by simp
qed

lemma routes_to_first_key:
  assumes "sorted (map startRva es)" and "b < length es" and "startRva (es ! b) \<le> q"
  shows "\<not> q < startRva (hd es)"
proof -
  have "map startRva es ! 0 \<le> map startRva es ! b"
    using sorted_nth_mono [OF assms(1), of 0 b] assms(2) by simp
  moreover have "0 < length es" using assms(2) by auto
  ultimately have "startRva (es ! 0) \<le> startRva (es ! b)" using assms(2) by simp
  moreover have "hd es = es ! 0" using assms(2) by (cases es) simp_all
  ultimately show ?thesis using assms(3) by simp
qed

lemma floorInBlock_sorted:
  assumes "sorted (rvas blk)"
  shows "floorInBlock q blk =
     (if upper_bound (<) (rvas blk) q = 0 then None
      else Some (lines blk ! (upper_bound (<) (rvas blk) q - 1)))"
proof -
  have "upper_bound (<) (rvas blk) q \<le> length (rvas blk)"
    using upper_bound_sorted_id [OF assms, of q] by simp
  then have "rvas blk = [] \<Longrightarrow> upper_bound (<) (rvas blk) q = 0" by simp
  then show ?thesis by (auto simp: floorInBlock_def Let_def)
qed

lemma floorInBlock_all_above:
  assumes "sorted (rvas blk)" and "\<forall>k \<in> set (rvas blk). q < k"
  shows "floorInBlock q blk = None"
proof -
  let ?m = "upper_bound (<) (rvas blk) q"
  note ub = upper_bound_sorted_id [OF assms(1), of q]
  have "?m = 0"
  proof (rule ccontr)
    assume "?m \<noteq> 0"
    then have z: "0 < ?m" by simp
    then have "rvas blk ! 0 \<le> q" using ub by blast
    moreover have "0 < length (rvas blk)" using z ub by arith
    then have "rvas blk ! 0 \<in> set (rvas blk)" by simp
    ultimately show False using assms(2) by fastforce
  qed
  then show ?thesis by (simp add: floorInBlock_sorted [OF assms(1)])
qed

lemma gap_loaded: "loaded gap_lookup"
  by (simp add: loaded_def cache_valid_def gap_lookup_def size_t_max_def)

lemmas block_defs = block_of_def decode_entry_def block_bytes_def

text \<open>
  C5. On a loaded object, decoding the block of a routing entry fails exactly when the
  declared size is below 16, or the bytes of the block cannot be read in full, or the
  declared size is not 16 plus 8 bytes per announced record, or the decoded addresses are
  not in non-decreasing order, with the message of that check; it succeeds with the
  decoded records otherwise. A failed call delivers no block and leaves the cache slot as
  it was, and a lookup whose candidate block fails to decode returns not-found.
\<close>

theorem LoadDecodedBlock_fails_exactly:
  assumes "loaded this" and "i < length (index1Entries this)"
  shows "fst (LoadDecodedBlock fs i NonNull this) =
      (if index2Size (index1Entries this ! i) < 16
       then Inl ''Corrupt block: size smaller than block header''
       else case block_bytes (filedata (index2Stream this)) (index1Entries this ! i) of
              None \<Rightarrow> Inl ''Failed reading index2 block''
            | Some buf \<Rightarrow>
                if 16 + 8 * unat (block_recordCount buf)
                     \<noteq> unat (index2Size (index1Entries this ! i))
                then Inl ''Corrupt block: record count does not match block size''
                else if \<not> sorted (rvas (decoded_records buf))
                then Inl ''Corrupt block: RVAs are not sorted''
                else Inr (decoded_records buf))
    \<and> (isl (fst (LoadDecodedBlock fs i NonNull this)) \<longrightarrow>
          cachedBlockIndex (snd (LoadDecodedBlock fs i NonNull this)) = cachedBlockIndex this
          \<and> cachedBlock (snd (LoadDecodedBlock fs i NonNull this)) = cachedBlock this)
    \<and> (isl (fst (LoadDecodedBlock fs i NonNull this)) \<and> routes_to this q i \<longrightarrow>
          fst (FindClosestLowerOrEqualLine fs q NonNull this) = None)"
proof -
  let ?es = "index1Entries this"
  have bo: "fst (LoadDecodedBlock fs i NonNull this) = block_of this i"
    using LoadDecodedBlock_loaded [OF assms, of fs] by simp
  then have a: "fst (LoadDecodedBlock fs i NonNull this) =
      (if index2Size (index1Entries this ! i) < 16
       then Inl ''Corrupt block: size smaller than block header''
       else case block_bytes (filedata (index2Stream this)) (index1Entries this ! i) of
              None \<Rightarrow> Inl ''Failed reading index2 block''
            | Some buf \<Rightarrow>
                if 16 + 8 * unat (block_recordCount buf)
                     \<noteq> unat (index2Size (index1Entries this ! i))
                then Inl ''Corrupt block: record count does not match block size''
                else if \<not> sorted (rvas (decoded_records buf))
                then Inl ''Corrupt block: RVAs are not sorted''
                else Inr (decoded_records buf))"
    by (simp add: block_of_def decode_entry_def decode_buffer_eq split: option.splits)
  have b: "isl (fst (LoadDecodedBlock fs i NonNull this)) \<longrightarrow>
          cachedBlockIndex (snd (LoadDecodedBlock fs i NonNull this)) = cachedBlockIndex this
          \<and> cachedBlock (snd (LoadDecodedBlock fs i NonNull this)) = cachedBlock this"
    using LoadDecodedBlock_Inl_cache [of fs i NonNull this] by (auto simp: isl_def)
  have c: "isl (fst (LoadDecodedBlock fs i NonNull this)) \<and> routes_to this q i \<longrightarrow>
          fst (FindClosestLowerOrEqualLine fs q NonNull this) = None"
  proof
    assume h: "isl (fst (LoadDecodedBlock fs i NonNull this)) \<and> routes_to this q i"
    then obtain err where err: "block_of this i = Inl err" using bo by (auto simp: isl_def)
    have srt: "sorted (map startRva ?es)" using assms(1) by (simp add: loaded_def)
    have r: "startRva (?es ! i) \<le> q"
      and above: "\<forall>j. i < j \<and> j < length ?es \<longrightarrow> q < startRva (?es ! j)"
      using h by (auto simp: routes_to_def list_all_iff)
    have n: "upper_bound (\<lambda>val entry. val < startRva entry) ?es q - 1 = i"
      using routes_to_upper_bound [OF srt assms(2) r above] by simp
    have first: "\<not> q < startRva (hd ?es)" using routes_to_first_key [OF srt assms(2) r] .
    have "lookup_result (block_of this) ?es q = None"
      unfolding lookup_result_def Let_def n using first err by simp
    then show "fst (FindClosestLowerOrEqualLine fs q NonNull this) = None"
      using FindClosestLowerOrEqualLine_loaded [OF assms(1), of fs q] by simp
  qed
  show ?thesis using a b c by (intro conjI)
qed

theorem LoadDecodedBlock_fails_exactly_witness:
  "loaded ex_lookup \<and> 0 < length (index1Entries ex_lookup)
   \<and> block_bytes (filedata (index2Stream ex_lookup)) (index1Entries ex_lookup ! 0)
       = Some ex_block0
   \<and> sorted (rvas (decoded_records ex_block0))
   \<and> fst (LoadDecodedBlock ex_fs 0 NonNull ex_lookup) = Inr (decoded_records ex_block0)
   \<and> loaded truncated_lookup \<and> 1 < length (index1Entries truncated_lookup)
   \<and> routes_to truncated_lookup 70 1
   \<and> block_bytes (filedata (index2Stream truncated_lookup))
         (index1Entries truncated_lookup ! 1) = None
   \<and> fst (LoadDecodedBlock ex_fs 1 NonNull truncated_lookup)
       = Inl ''Failed reading index2 block''
   \<and> fst (FindClosestLowerOrEqualLine ex_fs 70 NonNull truncated_lookup) = None"
proof -
  have h: "0 < length (index1Entries ex_lookup)" by (simp add: ex_lookup_def)
  have bb: "block_bytes (filedata (index2Stream ex_lookup)) (index1Entries ex_lookup ! 0)
       = Some ex_block0"
    by (simp add: block_bytes_def ex_lookup_def ex_entry0_def ex_index2_def ex_block0_def)
  have sz: "\<not> index2Size (index1Entries ex_lookup ! 0) < 16"
    "unat (index2Size (index1Entries ex_lookup ! 0)) = 32"
    by (simp_all add: ex_lookup_def ex_entry0_def)
  have rc: "unat (block_recordCount ex_block0) = 2"
    by (simp add: block_recordCount_def ex_block0_def ReadLe32_def)
  have d: "decoded_records ex_block0 = \<lparr>rvas = [16, 32], lines = [5, 7]\<rparr>"
    by (simp add: decoded_records_def block_startKey_def block_startValue_def
        block_recordCount_def ex_block0_def model_defs)
  have srt: "sorted (rvas (decoded_records ex_block0))"
    by (simp add: d)
  have ok: "fst (LoadDecodedBlock ex_fs 0 NonNull ex_lookup) = Inr (decoded_records ex_block0)"
    using LoadDecodedBlock_fails_exactly [OF ex_loaded h, of ex_fs 0] bb sz rc srt by simp
  have tl: "loaded truncated_lookup"
    by (simp add: loaded_def cache_valid_def truncated_lookup_def ex_lookup_def ex_entry0_def
        ex_entry1_def size_t_max_def)
  have th: "1 < length (index1Entries truncated_lookup)"
    by (simp add: truncated_lookup_def)
  have tr: "routes_to truncated_lookup 70 1"
    by (simp add: routes_to_def truncated_lookup_def ex_entry0_def ex_entry1_def)
  have tsz: "\<not> index2Size (index1Entries truncated_lookup ! 1) < 16"
    by (simp add: truncated_lookup_def ex_entry1_def)
  have tb: "block_bytes (filedata (index2Stream truncated_lookup))
         (index1Entries truncated_lookup ! 1) = None"
    by (simp add: block_bytes_def truncated_lookup_def ex_lookup_def ex_entry1_def
        ex_index2_def ex_block0_def ex_block1_def)
  note t = LoadDecodedBlock_fails_exactly [OF tl th, of ex_fs 70]
  have bad: "fst (LoadDecodedBlock ex_fs 1 NonNull truncated_lookup)
       = Inl ''Failed reading index2 block''"
    using t tsz tb by simp
  then have miss: "fst (FindClosestLowerOrEqualLine ex_fs 70 NonNull truncated_lookup) = None"
    using t tr by simp
  show ?thesis
    using ex_loaded h bb srt ok tl th tr tb bad miss by simp
qed

text \<open>
  C2, as the code has it. On a loaded object, when the query routes to a candidate block
  that decodes and whose keys all exceed the query, the lookup returns not-found if that
  block is the first one; otherwise it turns to the block before: it returns the last
  value of that block when it decodes and holds a record, and not-found when it fails to
  decode or holds no record.
\<close>

theorem boundary_fallback:
  assumes "loaded this" and "routes_to this q b"
    and "block_of this b = Inr blk" and "list_all (\<lambda>k. q < k) (rvas blk)"
  shows "fst (FindClosestLowerOrEqualLine fs q NonNull this) =
     (if b = 0 then None
      else case block_of this (b - 1) of
             Inl err \<Rightarrow> None
           | Inr prevBlock \<Rightarrow>
               if lines prevBlock = [] then None else Some (last (lines prevBlock)))"
proof -
  let ?es = "index1Entries this"
  have srt: "sorted (map startRva ?es)" using assms(1) by (simp add: loaded_def)
  have b: "b < length ?es" "startRva (?es ! b) \<le> q"
    and above: "\<forall>j. b < j \<and> j < length ?es \<longrightarrow> q < startRva (?es ! j)"
    using assms(2) by (auto simp: routes_to_def list_all_iff)
  have n: "upper_bound (\<lambda>val entry. val < startRva entry) ?es q - 1 = b"
    using routes_to_upper_bound [OF srt b above] by simp
  have first: "\<not> q < startRva (hd ?es)" using routes_to_first_key [OF srt b] .
  have "sorted (rvas blk)" using block_of_Inr [OF assms(3)] by blast
  then have fl: "floorInBlock q blk = None"
    using assms(4) by (intro floorInBlock_all_above) (simp_all add: list_all_iff)
  have "fst (FindClosestLowerOrEqualLine fs q NonNull this)
          = lookup_result (block_of this) ?es q"
    using FindClosestLowerOrEqualLine_loaded [OF assms(1), of fs q] by simp
  also have "\<dots> = (if b = 0 then None
      else case block_of this (b - 1) of
             Inl err \<Rightarrow> None
           | Inr prevBlock \<Rightarrow>
               if lines prevBlock = [] then None else Some (last (lines prevBlock)))"
    unfolding lookup_result_def Let_def n using first assms(3) fl by simp
  finally show ?thesis .
qed

theorem boundary_fallback_witness:
  "loaded ex_lookup \<and> routes_to ex_lookup 70 1
   \<and> block_of ex_lookup 1 = Inr \<lparr>rvas = [72], lines = [11]\<rparr>
   \<and> list_all (\<lambda>k. (70 :: uint64) < k) [72]
   \<and> block_of ex_lookup 0 = Inr \<lparr>rvas = [16, 32], lines = [5, 7]\<rparr>
   \<and> fst (FindClosestLowerOrEqualLine ex_fs 70 NonNull ex_lookup) = Some 7"
proof -
  have r: "routes_to ex_lookup 70 1"
    by (simp add: routes_to_def ex_lookup_def ex_entry0_def ex_entry1_def)
  have b1: "block_of ex_lookup 1 = Inr \<lparr>rvas = [72], lines = [11]\<rparr>"
    by (simp add: block_defs model_defs ex_lookup_def ex_entry0_def ex_entry1_def
        ex_index2_def ex_block0_def ex_block1_def)
  have b0: "block_of ex_lookup 0 = Inr \<lparr>rvas = [16, 32], lines = [5, 7]\<rparr>"
    by (simp add: block_defs model_defs ex_lookup_def ex_entry0_def ex_entry1_def
        ex_index2_def ex_block0_def ex_block1_def)
  have a: "list_all (\<lambda>k. (70 :: uint64) < k) (rvas \<lparr>rvas = [72], lines = [11 :: uint32]\<rparr>)"
    by simp
  show ?thesis
    using boundary_fallback [OF ex_loaded r b1 a, of ex_fs] ex_loaded r b1 b0 by simp
qed

text \<open>
  The files \<open>gap_index1\<close> and \<open>gap_index2\<close> load; the query 60 routes to the second
  block, whose only key 200 exceeds it; that block is not the first one, and yet the lookup
  returns not-found, because the block before decodes to no record.
\<close>

theorem fallback_misses_on_empty_previous_block:
  "Load gap_fs ''index1.bin'' ''index2.bin'' new_lookup = (Inr (), gap_lookup)
   \<and> routes_to gap_lookup 60 1
   \<and> block_of gap_lookup 1 = Inr \<lparr>rvas = [200], lines = [8]\<rparr>
   \<and> list_all (\<lambda>k. (60 :: uint64) < k) [200]
   \<and> block_of gap_lookup 0 = Inr \<lparr>rvas = [], lines = []\<rparr>
   \<and> fst (FindClosestLowerOrEqualLine gap_fs 60 NonNull gap_lookup) = None"
proof -
  have r: "routes_to gap_lookup 60 1"
    by (simp add: routes_to_def gap_lookup_def)
  have b1: "block_of gap_lookup 1 = Inr \<lparr>rvas = [200], lines = [8]\<rparr>"
    by (simp add: block_defs model_defs gap_lookup_def gap_index2_def)
  have b0: "block_of gap_lookup 0 = Inr \<lparr>rvas = [], lines = []\<rparr>"
    by (simp add: block_defs model_defs gap_lookup_def gap_index2_def)
  have f: "fst (FindClosestLowerOrEqualLine gap_fs 60 NonNull gap_lookup) = None"
    by (simp add: model_defs gap_lookup_def gap_index2_def)
  show ?thesis using gap_Load r b1 b0 f by simp
qed

section \<open>Floor lookups on aligned index files\<close>

lemma filter_eq_take:
  assumes "m \<le> length zs" and "\<forall>j<m. P (zs ! j)"
    and "\<forall>j. m \<le> j \<and> j < length zs \<longrightarrow> \<not> P (zs ! j)"
  shows "filter P zs = take m zs"
proof -
  have a: "filter P (take m zs) = take m zs"
  proof (rule filter_True, rule ballI)
    fix x assume "x \<in> set (take m zs)"
    then obtain j where "j < length (take m zs)" "x = take m zs ! j"
      by (auto simp: in_set_conv_nth)
    then show "P x" using assms(1,2) by simp
  qed
  have b: "filter P (drop m zs) = []"
  proof (rule filter_False, rule ballI)
    fix x assume "x \<in> set (drop m zs)"
    then obtain j where "j < length (drop m zs)" "x = drop m zs ! j"
      by (auto simp: in_set_conv_nth)
    then show "\<not> P x" using assms(1,3) by simp
  qed
  have "filter P zs = filter P (take m zs @ drop m zs)" by simp
  also have "\<dots> = take m zs" unfolding filter_append a b by simp
  finally show ?thesis .
qed

lemma block_filter:
  assumes "sorted xs" and "length xs = length ys"
  shows "filter (\<lambda>(k, v). k \<le> q) (zip xs ys) = take (upper_bound (<) xs q) (zip xs ys)"
proof (rule filter_eq_take)
  note ub = upper_bound_sorted_id [OF assms(1), of q]
  show "upper_bound (<) xs q \<le> length (zip xs ys)" using ub assms(2) by simp
  show "\<forall>j<upper_bound (<) xs q. (case zip xs ys ! j of (k, v) \<Rightarrow> k \<le> q)"
  proof (intro allI impI)
    fix j assume j: "j < upper_bound (<) xs q"
    then have "j < length xs" using ub by arith
    then show "case zip xs ys ! j of (k, v) \<Rightarrow> k \<le> q" using ub j assms(2) by simp
  qed
  show "\<forall>j. upper_bound (<) xs q \<le> j \<and> j < length (zip xs ys)
          \<longrightarrow> \<not> (case zip xs ys ! j of (k, v) \<Rightarrow> k \<le> q)"
  proof (intro allI impI)
    fix j assume j: "upper_bound (<) xs q \<le> j \<and> j < length (zip xs ys)"
    then have "q < xs ! j" using ub assms(2) by simp
    then show "\<not> (case zip xs ys ! j of (k, v) \<Rightarrow> k \<le> q)" using j assms(2) by simp
  qed
qed

lemma floor_value_alt:
  "floor_value ps q =
     (if filter (\<lambda>(k, v). k \<le> q) ps = [] then None
      else Some (snd (last (filter (\<lambda>(k, v). k \<le> q) ps))))"
  by (simp add: floor_value_def split: list.splits)

lemma alignedD:
  assumes "aligned this" and "i < length (index1Entries this)"
  shows "\<exists>blk. block_of this i = Inr blk \<and> rvas blk \<noteq> [] \<and> sorted (rvas blk)
    \<and> length (rvas blk) = length (lines blk)
    \<and> (\<forall>k \<in> set (rvas blk). startRva (index1Entries this ! i) \<le> k)
    \<and> (i + 1 < length (index1Entries this)
          \<longrightarrow> (\<forall>k \<in> set (rvas blk). k \<le> startRva (index1Entries this ! (i + 1))))"
proof -
  have "case block_of this i of
          Inl err \<Rightarrow> False
        | Inr b \<Rightarrow> rvas b \<noteq> []
            \<and> list_all (\<lambda>k. startRva (index1Entries this ! i) \<le> k
                          \<and> (i + 1 < length (index1Entries this)
                               \<longrightarrow> k \<le> startRva (index1Entries this ! (i + 1))))
                 (rvas b)"
    using assms by (simp add: aligned_def list_all_iff)
  then obtain blk where blk: "block_of this i = Inr blk" "rvas blk \<noteq> []"
    "\<forall>k \<in> set (rvas blk). startRva (index1Entries this ! i) \<le> k
        \<and> (i + 1 < length (index1Entries this)
              \<longrightarrow> k \<le> startRva (index1Entries this ! (i + 1)))"
    by (auto simp: list_all_iff split: sum.splits)
  have "sorted (rvas blk)" "length (rvas blk) = length (lines blk)"
    using block_of_Inr [OF blk(1)] by auto
  then show ?thesis using blk by blast
qed

lemma upt_split3: "b < n \<Longrightarrow> [0..<n] = [0..<b] @ [b] @ [Suc b..<n]"
  by (metis append_Cons append_Nil le_add1 le_add_same_cancel1 less_imp_add_positive
      upt_add_eq_append upt_conv_Cons)

lemma stored_pairs_floor:
  assumes "loaded this" and "aligned this"
  shows "lookup_result (block_of this) (index1Entries this) q
           = floor_value (stored_pairs this) q"
proof -
  let ?es = "index1Entries this"
  let ?N = "length ?es"
  let ?Q = "\<lambda>(k :: uint64, v :: uint32). k \<le> q"
  define pairs where "pairs = block_pairs this"
  have sp: "stored_pairs this = concat (map pairs [0..<?N])"
    by (simp add: stored_pairs_def pairs_def)
  have ne: "?es \<noteq> []" and srt: "sorted (map startRva ?es)"
    using assms(1) by (simp_all add: loaded_def)
  have mono: "startRva (?es ! i) \<le> startRva (?es ! j)" if "i \<le> j" "j < ?N" for i j
    using sorted_nth_mono [OF srt, of i j] that by simp
  have keys_low: "startRva (?es ! i) \<le> k"
    if lt: "i < ?N" and mem: "(k, v) \<in> set (pairs i)" for i k v
  proof -
    obtain blk where "block_of this i = Inr blk"
      "\<forall>k \<in> set (rvas blk). startRva (?es ! i) \<le> k"
      using alignedD [OF assms(2) lt] by blast
    then show ?thesis using mem by (auto simp: pairs_def block_pairs_def dest: set_zip_leftD)
  qed
  have keys_high: "k \<le> startRva (?es ! (i + 1))"
    if lt: "i + 1 < ?N" and mem: "(k, v) \<in> set (pairs i)" for i k v
  proof -
    have "i < ?N" using lt by simp
    then obtain blk where "block_of this i = Inr blk"
      "i + 1 < ?N \<longrightarrow> (\<forall>k \<in> set (rvas blk). k \<le> startRva (?es ! (i + 1)))"
      using alignedD [OF assms(2)] by blast
    then show ?thesis using lt mem by (auto simp: pairs_def block_pairs_def dest: set_zip_leftD)
  qed
  have fc: "filter ?Q (concat (map pairs is)) = concat (map (\<lambda>i. filter ?Q (pairs i)) is)"
    for "is"
    by (simp add: filter_concat comp_def)
  show ?thesis
  proof (cases "q < startRva (hd ?es)")
    case True
    have "filter ?Q (stored_pairs this) = []"
    proof (rule filter_False, rule ballI)
      fix x assume "x \<in> set (stored_pairs this)"
      then obtain i where i: "i < ?N" "x \<in> set (pairs i)" by (auto simp: sp)
      obtain k v where x: "x = (k, v)" by (cases x)
      have "startRva (?es ! 0) \<le> startRva (?es ! i)" using mono [of 0 i] i by simp
      moreover have "startRva (?es ! i) \<le> k" using keys_low i x by simp
      moreover have "hd ?es = ?es ! 0" using ne by (simp add: hd_conv_nth)
      ultimately show "\<not> ?Q x" using True x by auto
    qed
    then show ?thesis using True by (simp add: lookup_result_def floor_value_alt)
  next
    case False
    let ?n = "upper_bound (\<lambda>val entry. val < startRva entry) ?es q"
    note ub = upper_bound_sorted [OF srt, of q]
    have le: "?n \<le> ?N" using ub by simp
    have low: "startRva (?es ! j) \<le> q" if "j < ?n" for j using ub that by blast
    have high: "q < startRva (?es ! j)" if "?n \<le> j" "j < ?N" for j using ub that by blast
    have "\<not> q < startRva (?es ! 0)" using False ne by (simp add: hd_conv_nth)
    then have pos: "0 < ?n" using high [of 0] ne by auto
    define b where "b = ?n - 1"
    have nb: "?n - 1 = b" "?n = Suc b" using pos by (simp_all add: b_def)
    have bN: "b < ?N" using nb le by simp
    obtain blk where blk: "block_of this b = Inr blk" "sorted (rvas blk)"
      "length (rvas blk) = length (lines blk)"
      using alignedD [OF assms(2) bN] by blast
    define m where "m = upper_bound (<) (rvas blk) q"
    have mle: "m \<le> length (rvas blk)"
      using upper_bound_sorted_id [OF blk(2), of q] by (simp add: m_def)
    have pb: "pairs b = zip (rvas blk) (lines blk)" using blk(1) by (simp add: pairs_def block_pairs_def)
    have below: "filter ?Q (pairs i) = pairs i" if "i < b" for i
    proof (rule filter_True, rule ballI)
      fix x assume xin: "x \<in> set (pairs i)"
      obtain k v where x: "x = (k, v)" by (cases x)
      have "k \<le> startRva (?es ! (i + 1))" using keys_high [of i k v] that bN xin x by simp
      moreover have "startRva (?es ! (i + 1)) \<le> startRva (?es ! b)"
        using mono [of "i + 1" b] that bN by simp
      moreover have "startRva (?es ! b) \<le> q" using low [of b] nb by simp
      ultimately show "?Q x" using x by auto
    qed
    have above: "filter ?Q (pairs i) = []" if "b < i" "i < ?N" for i
    proof (rule filter_False, rule ballI)
      fix x assume xin: "x \<in> set (pairs i)"
      obtain k v where x: "x = (k, v)" by (cases x)
      have "startRva (?es ! i) \<le> k" using keys_low [of i k v] that xin x by simp
      moreover have "q < startRva (?es ! i)" using high [of i] that nb by simp
      ultimately show "\<not> ?Q x" using x by auto
    qed
    have part1: "concat (map (\<lambda>i. filter ?Q (pairs i)) [0..<b]) = concat (map pairs [0..<b])"
      using below by (intro arg_cong [where f = concat] map_cong) simp_all
    have part3: "concat (map (\<lambda>i. filter ?Q (pairs i)) [Suc b..<?N]) = []"
      using above by simp
    have part2: "filter ?Q (pairs b) = take m (pairs b)"
      unfolding pb m_def using blk(2,3) by (rule block_filter)
    have flt: "filter ?Q (stored_pairs this) = concat (map pairs [0..<b]) @ take m (pairs b)"
      unfolding sp fc upt_split3 [OF bN] by (simp add: part1 part2 part3)
    have fl: "floorInBlock q blk = (if m = 0 then None else Some (lines blk ! (m - 1)))"
      using floorInBlock_sorted [OF blk(2), of q] by (simp add: m_def)
    have lr: "lookup_result (block_of this) ?es q =
        (case floorInBlock q blk of
           Some v \<Rightarrow> Some v
         | None \<Rightarrow>
             if b = 0 then None
             else (case block_of this (b - 1) of
                     Inl err \<Rightarrow> None
                   | Inr prevBlock \<Rightarrow>
                       if lines prevBlock = [] then None
                       else Some (last (lines prevBlock))))"
      unfolding lookup_result_def Let_def nb(1) using False blk(1) by simp
    show ?thesis
    proof (cases "m = 0")
      case mz: False
      have tk: "take m (pairs b) \<noteq> []" using mz mle blk(3) by (auto simp: pb)
      have lt: "length (take m (pairs b)) = m" using mle blk(3) by (simp add: pb)
      have "last (take m (pairs b)) = take m (pairs b) ! (length (take m (pairs b)) - 1)"
        using tk by (rule last_conv_nth)
      also have "\<dots> = pairs b ! (m - 1)" unfolding lt using mz by simp
      also have "\<dots> = (rvas blk ! (m - 1), lines blk ! (m - 1))"
        using mz mle blk(3) by (simp add: pb)
      finally have "snd (last (filter ?Q (stored_pairs this))) = lines blk ! (m - 1)"
        unfolding flt using tk by simp
      moreover have "filter ?Q (stored_pairs this) \<noteq> []" unfolding flt using tk by simp
      ultimately show ?thesis
        unfolding lr fl floor_value_alt using mz by simp
    next
      case mz: True
      have flt0: "filter ?Q (stored_pairs this) = concat (map pairs [0..<b])"
        unfolding flt using mz by simp
      show ?thesis
      proof (cases "b = 0")
        case True
        then show ?thesis unfolding lr fl floor_value_alt flt0 using mz by simp
      next
        case bz: False
        then have b1: "b - 1 < ?N" "Suc (b - 1) = b" using bN by simp_all
        obtain prev where prev: "block_of this (b - 1) = Inr prev" "rvas prev \<noteq> []"
          "length (rvas prev) = length (lines prev)"
          using alignedD [OF assms(2) b1(1)] by blast
        have pp: "pairs (b - 1) = zip (rvas prev) (lines prev)"
          using prev(1) by (simp add: pairs_def block_pairs_def)
        have lne: "lines prev \<noteq> []" using prev(2,3) by auto
        have ppne: "pairs (b - 1) \<noteq> []" unfolding pp using prev(2) lne by simp
        have "[0..<b] = [0..<b - 1] @ [b - 1]" using b1(2) by (metis upt_Suc_append zero_le)
        then have "concat (map pairs [0..<b]) = concat (map pairs [0..<b - 1]) @ pairs (b - 1)"
          by simp
        then have "last (concat (map pairs [0..<b])) = last (pairs (b - 1))"
          and cne: "concat (map pairs [0..<b]) \<noteq> []"
          using ppne by simp_all
        moreover have "last (pairs (b - 1)) = (last (rvas prev), last (lines prev))"
          unfolding pp using prev(2,3) lne by (simp add: last_zip)
        ultimately have "snd (last (concat (map pairs [0..<b]))) = last (lines prev)"
          by simp
        then show ?thesis
          unfolding lr fl floor_value_alt flt0 using mz bz prev(1) lne cne by simp
      qed
    qed
  qed
qed

lemma sorted_concat_upt:
  fixes f :: "nat \<Rightarrow> ('k::linorder \<times> 'v) list"
  assumes "\<forall>i<n. sorted (map fst (f i))"
    and "\<forall>i j x y. i < j \<and> j < n \<and> x \<in> set (f i) \<and> y \<in> set (f j) \<longrightarrow> fst x \<le> fst y"
  shows "sorted (map fst (concat (map f [0..<n])))"
  using assms
proof (induction n)
  case 0
  then show ?case by simp
next
  case (Suc n)
  have a: "sorted (map fst (concat (map f [0..<n])))"
  proof (rule Suc.IH)
    show "\<forall>i<n. sorted (map fst (f i))" using Suc.prems(1) by simp
    show "\<forall>i j x y. i < j \<and> j < n \<and> x \<in> set (f i) \<and> y \<in> set (f j) \<longrightarrow> fst x \<le> fst y"
      using Suc.prems(2) by (meson less_Suc_eq)
  qed
  have b: "sorted (map fst (f n))" using Suc.prems(1) by simp
  have c: "\<forall>x \<in> set (concat (map f [0..<n])). \<forall>y \<in> set (f n). fst x \<le> fst y"
  proof (intro ballI)
    fix x y assume "x \<in> set (concat (map f [0..<n]))" and y: "y \<in> set (f n)"
    then obtain i where "i < n" "x \<in> set (f i)" by auto
    then show "fst x \<le> fst y" using Suc.prems(2) y by blast
  qed
  show ?case using a b c by (simp add: sorted_append)
qed

lemma stored_keys_sorted:
  assumes "loaded this" and "aligned this"
  shows "sorted (map fst (stored_pairs this))"
  unfolding stored_pairs_def
proof (rule sorted_concat_upt)
  let ?es = "index1Entries this"
  have srt: "sorted (map startRva ?es)" using assms(1) by (simp add: loaded_def)
  show "\<forall>i<length ?es. sorted (map fst (block_pairs this i))"
  proof (intro allI impI)
    fix i assume "i < length ?es"
    then obtain blk where "block_of this i = Inr blk" "sorted (rvas blk)"
      "length (rvas blk) = length (lines blk)"
      using alignedD [OF assms(2)] by blast
    then show "sorted (map fst (block_pairs this i))" by (simp add: block_pairs_def)
  qed
  show "\<forall>i j x y. i < j \<and> j < length ?es \<and> x \<in> set (block_pairs this i)
          \<and> y \<in> set (block_pairs this j) \<longrightarrow> fst x \<le> fst y"
  proof (intro allI impI)
    fix i j x y
    assume h: "i < j \<and> j < length ?es \<and> x \<in> set (block_pairs this i)
          \<and> y \<in> set (block_pairs this j)"
    then have i: "i < length ?es" "i + 1 < length ?es" and j: "j < length ?es" by simp_all
    obtain bi where bi: "block_of this i = Inr bi"
      "i + 1 < length ?es \<longrightarrow> (\<forall>k \<in> set (rvas bi). k \<le> startRva (?es ! (i + 1)))"
      using alignedD [OF assms(2) i(1)] by blast
    obtain bj where bj: "block_of this j = Inr bj"
      "\<forall>k \<in> set (rvas bj). startRva (?es ! j) \<le> k"
      using alignedD [OF assms(2) j] by blast
    have "fst x \<in> set (rvas bi)" using h bi(1)
      by (cases x) (auto simp: block_pairs_def dest: set_zip_leftD)
    then have 1: "fst x \<le> startRva (?es ! (i + 1))" using bi(2) i(2) by simp
    have "fst y \<in> set (rvas bj)" using h bj(1)
      by (cases y) (auto simp: block_pairs_def dest: set_zip_leftD)
    then have 3: "startRva (?es ! j) \<le> fst y" using bj(2) by simp
    have 2: "startRva (?es ! (i + 1)) \<le> startRva (?es ! j)"
      using sorted_nth_mono [OF srt, of "i + 1" j] h by simp
    show "fst x \<le> fst y" using 1 2 3 by simp
  qed
qed

lemma floor_value_None:
  "floor_value ps q = None \<longleftrightarrow> list_all (\<lambda>(k, v). q < k) ps"
proof -
  have "(filter (\<lambda>(k, v). k \<le> q) ps = []) = (\<forall>x \<in> set ps. \<not> (case x of (k, v) \<Rightarrow> k \<le> q))"
    by (simp add: filter_empty_conv)
  also have "\<dots> = (\<forall>x \<in> set ps. case x of (k, v) \<Rightarrow> q < k)"
    by (intro ball_cong refl) (simp add: case_prod_beta not_le)
  finally show ?thesis by (simp add: floor_value_alt list_all_iff)
qed

lemma sorted_le_last:
  assumes "sorted (map fst zs)" and "x \<in> set zs"
  shows "fst x \<le> fst (last zs)"
proof -
  obtain j where j: "j < length zs" "x = zs ! j" using assms(2) by (auto simp: in_set_conv_nth)
  then have ne: "zs \<noteq> []" by auto
  have "map fst zs ! j \<le> map fst zs ! (length zs - 1)"
    using sorted_nth_mono [OF assms(1), of j "length zs - 1"] j by simp
  then show ?thesis using j ne by (simp add: last_conv_nth)
qed

lemma floor_value_Some:
  assumes "sorted (map fst ps)" and "floor_value ps q = Some v"
  shows "\<exists>k. (k, v) \<in> set ps \<and> k \<le> q
    \<and> list_all (\<lambda>(k', v'). k' \<le> q \<longrightarrow> k' \<le> k) ps"
proof -
  let ?F = "filter (\<lambda>(k, v). k \<le> q) ps"
  have ne: "?F \<noteq> []" and v: "v = snd (last ?F)"
    using assms(2) by (auto simp: floor_value_alt split: if_splits)
  have lin: "last ?F \<in> set ?F" using ne by (rule last_in_set)
  obtain k where k: "last ?F = (k, v)" using v by (cases "last ?F") simp
  have kq: "(k, v) \<in> set ps" "k \<le> q" using lin k by auto
  have sf: "sorted (map fst ?F)" using assms(1) by (rule sorted_filter)
  have "list_all (\<lambda>(k', v'). k' \<le> q \<longrightarrow> k' \<le> k) ps"
    unfolding list_all_iff
  proof (rule ballI)
    fix x assume x: "x \<in> set ps"
    obtain k' v' where x': "x = (k', v')" by (cases x)
    have "k' \<le> k" if "k' \<le> q"
    proof -
      have "x \<in> set ?F" using x x' that by simp
      then have "fst x \<le> fst (last ?F)" using sf by (intro sorted_le_last)
      then show ?thesis using x' k by simp
    qed
    then show "case x of (k', v') \<Rightarrow> k' \<le> q \<longrightarrow> k' \<le> k" using x' by simp
  qed
  then show ?thesis using kq by blast
qed

lemma ex_aligned: "aligned ex_lookup"
  by (simp add: aligned_def block_defs model_defs ex_lookup_def ex_entry0_def ex_entry1_def
      ex_index2_def ex_block0_def ex_block1_def)

lemma ex_stored_pairs: "stored_pairs ex_lookup = [(16, 5), (32, 7), (72, 11)]"
  by (simp add: stored_pairs_def block_pairs_def block_defs model_defs ex_lookup_def
      ex_entry0_def ex_entry1_def ex_index2_def ex_block0_def ex_block1_def)

text \<open>
  C1, as the code has it. On a loaded object in which every block decodes, holds at least
  one record and has all its keys between the start key of its routing entry and the
  start key of the next entry, the stored keys are in non-decreasing order over all
  blocks, and a lookup returns the value of the last stored record whose key is at most
  the query: a value paired with the greatest stored key not above the query, and
  not-found exactly when every stored key is above the query.
\<close>

theorem floor_lookup_on_aligned_index:
  assumes "loaded this" and "aligned this"
  shows "fst (FindClosestLowerOrEqualLine fs q NonNull this)
           = floor_value (stored_pairs this) q
    \<and> sorted (map fst (stored_pairs this))
    \<and> (fst (FindClosestLowerOrEqualLine fs q NonNull this) = None
          \<longleftrightarrow> list_all (\<lambda>(k, v). q < k) (stored_pairs this))
    \<and> (\<forall>v. fst (FindClosestLowerOrEqualLine fs q NonNull this) = Some v \<longrightarrow>
          (\<exists>k. (k, v) \<in> set (stored_pairs this) \<and> k \<le> q
             \<and> list_all (\<lambda>(k', v'). k' \<le> q \<longrightarrow> k' \<le> k) (stored_pairs this)))"
proof -
  have eq: "fst (FindClosestLowerOrEqualLine fs q NonNull this)
           = floor_value (stored_pairs this) q"
    using FindClosestLowerOrEqualLine_loaded [OF assms(1), of fs q]
      stored_pairs_floor [OF assms, of q] by simp
  have srt: "sorted (map fst (stored_pairs this))"
    using assms by (rule stored_keys_sorted)
  show ?thesis
    unfolding eq using srt floor_value_None [of "stored_pairs this" q]
      floor_value_Some [OF srt, of q]
    by blast
qed

theorem floor_lookup_on_aligned_index_witness:
  "loaded ex_lookup \<and> aligned ex_lookup
   \<and> stored_pairs ex_lookup = [(16, 5), (32, 7), (72, 11)]
   \<and> fst (FindClosestLowerOrEqualLine ex_fs 15 NonNull ex_lookup) = None
   \<and> fst (FindClosestLowerOrEqualLine ex_fs 16 NonNull ex_lookup) = Some 5
   \<and> fst (FindClosestLowerOrEqualLine ex_fs 32 NonNull ex_lookup) = Some 7
   \<and> fst (FindClosestLowerOrEqualLine ex_fs 40 NonNull ex_lookup) = Some 7
   \<and> fst (FindClosestLowerOrEqualLine ex_fs 70 NonNull ex_lookup) = Some 7
   \<and> fst (FindClosestLowerOrEqualLine ex_fs 72 NonNull ex_lookup) = Some 11"
proof -
  note t = floor_lookup_on_aligned_index [OF ex_loaded ex_aligned, of ex_fs,
      THEN conjunct1, unfolded ex_stored_pairs]
  have "floor_value [(16, 5), (32, 7), (72, 11)] 15 = None"
    "floor_value [(16, 5), (32, 7), (72, 11)] 16 = Some 5"
    "floor_value [(16, 5), (32, 7), (72, 11)] 32 = Some 7"
    "floor_value [(16, 5), (32, 7), (72, 11)] 40 = Some 7"
    "floor_value [(16, 5), (32, 7), (72, 11)] 70 = Some 7"
    "floor_value [(16, 5), (32, 7), (72, 11)] 72 = Some 11"
    by (simp_all add: floor_value_def)
  then show ?thesis
    using t [of 15] t [of 16] t [of 32] t [of 40] t [of 70] t [of 72]
      ex_loaded ex_aligned ex_stored_pairs
    by simp
qed

text \<open>
  The files \<open>skew_index1\<close> and \<open>skew_index2\<close> load: the routing table is sorted, and
  both blocks are structurally valid with sorted keys. The stored keys are 100 and 200,
  so the query 60 is below the smallest stored key; the lookup returns the value 5 of the
  key 100, not not-found.
\<close>

theorem lookup_below_smallest_key_finds_value:
  "Load skew_fs ''index1.bin'' ''index2.bin'' new_lookup = (Inr (), skew_lookup)
   \<and> sorted (map startRva (index1Entries skew_lookup))
   \<and> block_of skew_lookup 0 = Inr \<lparr>rvas = [100], lines = [5]\<rparr>
   \<and> block_of skew_lookup 1 = Inr \<lparr>rvas = [200], lines = [8]\<rparr>
   \<and> stored_pairs skew_lookup = [(100, 5), (200, 8)]
   \<and> floor_value (stored_pairs skew_lookup) 60 = None
   \<and> fst (FindClosestLowerOrEqualLine skew_fs 60 NonNull skew_lookup) = Some 5"
proof -
  have s: "sorted (map startRva (index1Entries skew_lookup))"
    by (simp add: skew_lookup_def)
  have b0: "block_of skew_lookup 0 = Inr \<lparr>rvas = [100], lines = [5]\<rparr>"
    by (simp add: block_defs model_defs skew_lookup_def skew_index2_def)
  have b1: "block_of skew_lookup 1 = Inr \<lparr>rvas = [200], lines = [8]\<rparr>"
    by (simp add: block_defs model_defs skew_lookup_def skew_index2_def)
  have sp: "stored_pairs skew_lookup = [(100, 5), (200, 8)]"
    by (simp add: stored_pairs_def block_pairs_def block_defs model_defs skew_lookup_def
        skew_index2_def)
  have fv: "floor_value (stored_pairs skew_lookup) 60 = None"
    unfolding sp by (simp add: floor_value_def)
  have f: "fst (FindClosestLowerOrEqualLine skew_fs 60 NonNull skew_lookup) = Some 5"
    by (simp add: model_defs skew_lookup_def skew_index2_def)
  show ?thesis using skew_Load s b0 b1 sp fv f by simp
qed

end
